theory Spec2Isabelle
  imports Main "HOL-Library.Sublist"
begin

section \<open>Byte-level BPE tokenizer (src/gpt/tokenizer.py)\<close>

text \<open>
  Python \<open>bytes\<close> objects are lists of 8-bit characters, so a byte string such as
  \<open>b'ab'\<close> is the HOL string \<open>''ab''\<close>.  A Python \<open>str\<close> is a sequence of code
  points, modelled as a list of integers (the values of \<open>ord\<close>).
\<close>

type_synonym bytes = "char list"
type_synonym pystr = "int list"

subsection \<open>\<open>get_pairs\<close>\<close>

text \<open>
  \<^verbatim>\<open>return [(pretoken[i], pretoken[i + 1]) for i in range(len(pretoken) - 1)]\<close>
  The range is empty for the empty list (\<open>range(-1)\<close>), as is \<open>[0..<0 - 1]\<close>.
\<close>

definition get_pairs :: "bytes list \<Rightarrow> (bytes \<times> bytes) list" where
  "get_pairs pretoken =
     map (\<lambda>i. (pretoken ! i, pretoken ! (i + 1))) [0..<length pretoken - 1]"

subsection \<open>The merge loop of \<open>Tokenizer._merge_word\<close>\<close>

text \<open>
  Python's \<open>min(xs, key=f)\<close> on a non-empty list: the first element whose key is
  minimal.  The accumulator is the best element seen so far; it is replaced only by
  an element with a strictly smaller key.
\<close>

fun min_key_from :: "('a \<Rightarrow> nat) \<Rightarrow> 'a \<Rightarrow> 'a list \<Rightarrow> 'a" where
  "min_key_from key best [] = best"
| "min_key_from key best (x # xs) =
     (if key x < key best then min_key_from key x xs else min_key_from key best xs)"

text \<open>
  The candidates of one iteration and the pair chosen among them:
  \<^verbatim>\<open>
  pairs = get_pairs(tokens)
  merge_candidates = [pair for pair in pairs if pair in self.merge_ranks]
  if not merge_candidates: break
  best_pair = min(merge_candidates, key=lambda pair: self.merge_ranks[pair])
  \<close>
  The rank table is a dictionary from pairs to list positions.  \<open>best_pair\<close> is
  \<open>None\<close> exactly where the source breaks out of the loop.
\<close>

definition merge_candidates ::
  "(bytes \<times> bytes \<rightharpoonup> nat) \<Rightarrow> bytes list \<Rightarrow> (bytes \<times> bytes) list" where
  "merge_candidates merge_ranks tokens =
     filter (\<lambda>pair. merge_ranks pair \<noteq> None) (get_pairs tokens)"

definition best_pair ::
  "(bytes \<times> bytes \<rightharpoonup> nat) \<Rightarrow> bytes list \<Rightarrow> (bytes \<times> bytes) option" where
  "best_pair merge_ranks tokens =
     (case merge_candidates merge_ranks tokens of
        [] \<Rightarrow> None
      | c # cs \<Rightarrow> Some (min_key_from (\<lambda>pair. the (merge_ranks pair)) c cs))"

text \<open>
  The inner scan, with the source's index and output list:
  \<^verbatim>\<open>
  while index < len(tokens):
      if index + 1 < len(tokens) and (tokens[index], tokens[index + 1]) == best_pair:
          new_tokens.append(new_token); index += 2
      else:
          new_tokens.append(tokens[index]); index += 1
  \<close>
\<close>

function merge_scan ::
  "bytes \<times> bytes \<Rightarrow> bytes list \<Rightarrow> nat \<Rightarrow> bytes list \<Rightarrow> bytes list" where
  "merge_scan bp tokens index new_tokens =
     (if index < length tokens then
        (if index + 1 < length tokens \<and> (tokens ! index, tokens ! (index + 1)) = bp
         then merge_scan bp tokens (index + 2) (new_tokens @ [fst bp @ snd bp])
         else merge_scan bp tokens (index + 1) (new_tokens @ [tokens ! index]))
      else new_tokens)"
  by pat_completeness auto
termination
  by (relation "measure (\<lambda>(bp, tokens, index, new_tokens). length tokens - index)") auto

declare merge_scan.simps [simp del]

text \<open>One round: the scan started at index 0 with an empty output list.\<close>

definition merge_round :: "bytes \<times> bytes \<Rightarrow> bytes list \<Rightarrow> bytes list" where
  "merge_round bp tokens = merge_scan bp tokens 0 []"

text \<open>
  The scan written as a recursion on the list: a matched pair is consumed before the
  scan advances.  This is the reading of the round that the specification gives; it is
  compared with \<open>merge_scan\<close> below.
\<close>

fun greedy_replace :: "bytes \<times> bytes \<Rightarrow> bytes list \<Rightarrow> bytes list" where
  "greedy_replace bp (x # y # rest) =
     (if (x, y) = bp then (fst bp @ snd bp) # greedy_replace bp rest
      else x # greedy_replace bp (y # rest))"
| "greedy_replace bp xs = xs"

subsubsection \<open>Facts about one round, needed for the termination of the loop\<close>

lemma merge_scan_greedy:
  "index \<le> length tokens \<Longrightarrow>
   merge_scan bp tokens index new_tokens = new_tokens @ greedy_replace bp (drop index tokens)"
proof (induction bp tokens index new_tokens rule: merge_scan.induct)
  case (1 bp tokens index new_tokens)
  show ?case
  proof (cases "index < length tokens")
    case False
    with "1.prems" show ?thesis
      by (subst merge_scan.simps) simp
  next
    case lt: True
    show ?thesis
    proof (cases "index + 1 < length tokens")
      case False
      with lt have d: "drop index tokens = [tokens ! index]"
        by (metis Cons_nth_drop_Suc Suc_eq_plus1 drop_all not_less)
      from False lt have d1: "drop (index + 1) tokens = []" by simp
      from lt False "1.IH"(2) have
        "merge_scan bp tokens (index + 1) (new_tokens @ [tokens ! index]) =
         (new_tokens @ [tokens ! index]) @ greedy_replace bp (drop (index + 1) tokens)"
        by simp
      with lt False d d1 show ?thesis
        by (subst merge_scan.simps) simp
    next
      case lt1: True
      then have d: "drop index tokens =
          tokens ! index # tokens ! (index + 1) # drop (index + 2) tokens"
        using lt by (metis Cons_nth_drop_Suc Suc_eq_plus1 add_2_eq_Suc')
      show ?thesis
      proof (cases "(tokens ! index, tokens ! (index + 1)) = bp")
        case True
        with lt lt1 "1.IH"(1) have
          "merge_scan bp tokens (index + 2) (new_tokens @ [fst bp @ snd bp]) =
           (new_tokens @ [fst bp @ snd bp]) @ greedy_replace bp (drop (index + 2) tokens)"
          by simp
        with lt lt1 True d show ?thesis
          by (subst merge_scan.simps) simp
      next
        case False
        from lt lt1 have d': "drop (index + 1) tokens =
            tokens ! (index + 1) # drop (index + 2) tokens"
          by (metis Cons_nth_drop_Suc Suc_eq_plus1 add_2_eq_Suc')
        from lt False "1.IH"(2) have
          "merge_scan bp tokens (index + 1) (new_tokens @ [tokens ! index]) =
           (new_tokens @ [tokens ! index]) @ greedy_replace bp (drop (index + 1) tokens)"
          by simp
        with lt lt1 False d d' show ?thesis
          by (subst merge_scan.simps) simp
      qed
    qed
  qed
qed

lemma merge_round_greedy: "merge_round bp tokens = greedy_replace bp tokens"
  by (simp add: merge_round_def merge_scan_greedy)

lemma get_pairs_Nil: "get_pairs [] = []"
  by (simp add: get_pairs_def)

lemma get_pairs_single: "get_pairs [x] = []"
  by (simp add: get_pairs_def)

lemma get_pairs_Cons2: "get_pairs (x # y # rest) = (x, y) # get_pairs (y # rest)"
proof -
  have "[0..<Suc (length rest)] = 0 # map Suc [0..<length rest]"
    by (simp add: upt_conv_Cons map_Suc_upt del: upt_Suc)
  then show ?thesis
    by (simp add: get_pairs_def comp_def del: upt_Suc)
qed

lemma greedy_replace_length_le: "length (greedy_replace bp xs) \<le> length xs"
  by (induction bp xs rule: greedy_replace.induct) auto

lemma greedy_replace_length_less:
  "bp \<in> set (get_pairs xs) \<Longrightarrow> length (greedy_replace bp xs) < length xs"
proof (induction bp xs rule: greedy_replace.induct)
  case (1 bp x y rest)
  show ?case
  proof (cases "(x, y) = bp")
    case True
    then show ?thesis
      using greedy_replace_length_le [of bp rest] by simp
  next
    case False
    with "1.prems" have "bp \<in> set (get_pairs (y # rest))"
      by (auto simp: get_pairs_Cons2)
    with False "1.IH"(2) show ?thesis by simp
  qed
qed (simp_all add: get_pairs_Nil get_pairs_single)

lemma min_key_from_mem: "min_key_from key best xs \<in> set (best # xs)"
  by (induction xs arbitrary: best) auto

lemma best_pair_candidate:
  "best_pair merge_ranks tokens = Some bp \<Longrightarrow> bp \<in> set (merge_candidates merge_ranks tokens)"
  using min_key_from_mem
  by (fastforce simp: best_pair_def split: list.splits)

lemma best_pair_in_pairs:
  "best_pair merge_ranks tokens = Some bp \<Longrightarrow> bp \<in> set (get_pairs tokens)"
  using best_pair_candidate [of merge_ranks tokens bp]
  by (simp add: merge_candidates_def)

lemma merge_round_shrinks:
  "best_pair merge_ranks tokens = Some bp \<Longrightarrow> length (merge_round bp tokens) < length tokens"
  by (simp add: merge_round_greedy greedy_replace_length_less best_pair_in_pairs)

text \<open>
  The outer \<open>while True\<close> loop: it stops when there is no candidate, and otherwise
  replaces \<open>tokens\<close> by the output of the round for the chosen pair.
\<close>

function merge_loop :: "(bytes \<times> bytes \<rightharpoonup> nat) \<Rightarrow> bytes list \<Rightarrow> bytes list" where
  "merge_loop merge_ranks tokens =
     (case best_pair merge_ranks tokens of
        None \<Rightarrow> tokens
      | Some bp \<Rightarrow> merge_loop merge_ranks (merge_round bp tokens))"
  by pat_completeness auto
termination
  by (relation "measure (\<lambda>(merge_ranks, tokens). length tokens)")
     (auto simp: merge_round_shrinks)

declare merge_loop.simps [simp del]

text \<open>The body of the loop, once: the identity where the source breaks.\<close>

definition merge_iteration :: "(bytes \<times> bytes \<rightharpoonup> nat) \<Rightarrow> bytes list \<Rightarrow> bytes list" where
  "merge_iteration ranks tokens =
     (case best_pair ranks tokens of None \<Rightarrow> tokens | Some bp \<Rightarrow> merge_round bp tokens)"


subsection \<open>Errors\<close>

text \<open>
  The exceptions the source can raise.  A failed dictionary lookup raises Python's
  \<open>KeyError\<close>, which carries the missing key: a byte string for \<open>vocab_to_id\<close>, an
  integer for \<open>vocab\<close>.  \<open>str.encode('utf-8')\<close> raises \<open>UnicodeEncodeError\<close> on a
  surrogate code point.
\<close>

datatype key = BytesKey bytes | IntKey int

datatype error = KeyError key | UnicodeEncodeError

subsection \<open>Python built-ins used by the source: UTF-8\<close>

text \<open>
  \<open>s.encode('utf-8')\<close>: one to four bytes per code point; the surrogates
  \<open>U+D800..U+DFFF\<close> cannot be encoded.  (Python strings hold no code point outside
  \<open>0..U+10FFFF\<close>; the model rejects such a number as well.)
\<close>

definition encodable :: "int \<Rightarrow> bool" where
  "encodable c \<longleftrightarrow> 0 \<le> c \<and> c < 0x110000 \<and> \<not> (0xD800 \<le> c \<and> c \<le> 0xDFFF)"

definition utf8_char :: "int \<Rightarrow> bytes" where
  "utf8_char c = map char_of
     (if c < 0x80 then [c]
      else if c < 0x800 then [0xC0 + c div 0x40, 0x80 + c mod 0x40]
      else if c < 0x10000 then
        [0xE0 + c div 0x1000, 0x80 + c div 0x40 mod 0x40, 0x80 + c mod 0x40]
      else
        [0xF0 + c div 0x40000, 0x80 + c div 0x1000 mod 0x40,
         0x80 + c div 0x40 mod 0x40, 0x80 + c mod 0x40])"

definition utf8_bytes :: "pystr \<Rightarrow> bytes" where
  "utf8_bytes s = concat (map utf8_char s)"

definition utf8_encode :: "pystr \<Rightarrow> error + bytes" where
  "utf8_encode s =
     (if list_all encodable s then Inr (utf8_bytes s) else Inl UnicodeEncodeError)"

text \<open>
  \<open>bs.decode('utf-8', errors='replace')\<close>.  The decoder never fails: where the bytes
  at the current position do not start a well-formed sequence, it emits \<open>U+FFFD\<close> for
  the longest prefix of them that could have started one (at least one byte) and goes
  on after it.  The second byte of a three- or four-byte sequence has a range that
  depends on the lead byte (no overlong forms, no surrogates, nothing above
  \<open>U+10FFFF\<close>).
\<close>

definition is_cont :: "int \<Rightarrow> bool" where
  "is_cont b \<longleftrightarrow> 0x80 \<le> b \<and> b \<le> 0xBF"

definition second_ok :: "int \<Rightarrow> int \<Rightarrow> bool" where
  "second_ok lead b \<longleftrightarrow>
     is_cont b \<and>
     \<not> (if b < 0xA0 then lead = 0xE0 else lead = 0xED) \<and>
     \<not> (if b < 0x90 then lead = 0xF0 else lead = 0xF4)"

fun utf8_dec :: "int list \<Rightarrow> int list" where
  "utf8_dec [] = []"
| "utf8_dec (b0 # bs) =
     (if b0 < 0x80 then b0 # utf8_dec bs
      else if b0 < 0xC2 \<or> 0xF5 \<le> b0 then 0xFFFD # utf8_dec bs
      else
        (case bs of
           [] \<Rightarrow> [0xFFFD]
         | b1 # bs1 \<Rightarrow>
             if b0 < 0xE0 then
               (if is_cont b1 then ((b0 - 0xC0) * 0x40 + (b1 - 0x80)) # utf8_dec bs1
                else 0xFFFD # utf8_dec bs)
             else if \<not> second_ok b0 b1 then 0xFFFD # utf8_dec bs
             else
               (case bs1 of
                  [] \<Rightarrow> [0xFFFD]
                | b2 # bs2 \<Rightarrow>
                    if \<not> is_cont b2 then 0xFFFD # utf8_dec bs1
                    else if b0 < 0xF0 then
                      ((b0 - 0xE0) * 0x1000 + (b1 - 0x80) * 0x40 + (b2 - 0x80)) # utf8_dec bs2
                    else
                      (case bs2 of
                         [] \<Rightarrow> [0xFFFD]
                       | b3 # bs3 \<Rightarrow>
                           if \<not> is_cont b3 then 0xFFFD # utf8_dec bs2
                           else
                             ((b0 - 0xF0) * 0x40000 + (b1 - 0x80) * 0x1000 +
                              (b2 - 0x80) * 0x40 + (b3 - 0x80)) # utf8_dec bs3))))"

declare utf8_dec.simps(2) [simp del]

definition utf8_decode_replace :: "bytes \<Rightarrow> pystr" where
  "utf8_decode_replace bs = utf8_dec (map of_char bs)"

subsection \<open>Dictionaries with insertion order\<close>

text \<open>
  The vocabulary is a Python \<open>dict[int, bytes]\<close>.  Its iteration order matters to
  the source (\<open>vocab_to_id\<close> is built by iterating over it), so it is the list of its
  items in insertion order.  \<open>d[k] = v\<close> replaces the value of an existing key in
  place and appends a new key at the end.
\<close>

type_synonym vocabulary = "(int \<times> bytes) list"

definition dict_get :: "('k \<times> 'v) list \<Rightarrow> 'k \<Rightarrow> 'v option" where
  "dict_get d k = map_of d k"

fun dict_set :: "('k \<times> 'v) list \<Rightarrow> 'k \<Rightarrow> 'v \<Rightarrow> ('k \<times> 'v) list" where
  "dict_set [] k v = [(k, v)]"
| "dict_set ((k', v') # d) k v =
     (if k' = k then (k, v) # d else (k', v') # dict_set d k v)"

text \<open>
  The data model of the specification: the ids of a vocabulary of \<open>N\<close> entries are
  unique and are exactly \<open>0..N-1\<close>.
\<close>

definition dense_ids :: "vocabulary \<Rightarrow> bool" where
  "dense_ids d \<longleftrightarrow>
     distinct (map fst d) \<and> set (map fst d) = set (map int [0..<length d])"

subsection \<open>\<open>Tokenizer.__init__\<close>\<close>

record tokenizer =
  vocab :: vocabulary
  merges :: "(bytes \<times> bytes) list"
  special_tokens :: "pystr list"
  split_pattern :: "pystr list option"
  merge_ranks :: "bytes \<times> bytes \<rightharpoonup> nat"
  vocab_size :: nat
  vocab_to_id :: "bytes \<rightharpoonup> int"

text \<open>
  \<^verbatim>\<open>
  for special_token in special_tokens:
      byte_encoded_special_token = special_token.encode("utf-8")
      if byte_encoded_special_token not in set(vocab.values()):
          vocab[len(vocab)] = byte_encoded_special_token
  \<close>
\<close>

fun add_special_tokens :: "vocabulary \<Rightarrow> pystr list \<Rightarrow> error + vocabulary" where
  "add_special_tokens d [] = Inr d"
| "add_special_tokens d (special_token # rest) =
     (case utf8_encode special_token of
        Inl e \<Rightarrow> Inl e
      | Inr b \<Rightarrow>
          add_special_tokens
            (if b \<notin> set (map snd d) then dict_set d (int (length d)) b else d) rest)"

text \<open>
  \<open>sorted(special_tokens, key=len, reverse=True)\<close>: a stable sort by descending
  length (with \<open>reverse=True\<close> Python keeps equal elements in their original order).
  The pattern \<open>"(" + "|".join(map(re.escape, ...)) + ")"\<close> is an alternation of
  literals; it is kept as the list of its alternatives, in order.
\<close>

definition sorted_special_tokens :: "pystr list \<Rightarrow> pystr list" where
  "sorted_special_tokens sts = sort_key (\<lambda>s. - int (length s)) sts"

text \<open>
  \<open>{merge: i for i, merge in enumerate(merges)}\<close> and
  \<open>{v: k for k, v in self.vocab.items()}\<close>: a dictionary comprehension stores the
  entries one after the other, so a later entry with the same key replaces an
  earlier one.
\<close>

definition build_merge_ranks :: "(bytes \<times> bytes) list \<Rightarrow> (bytes \<times> bytes \<rightharpoonup> nat)" where
  "build_merge_ranks ms = fold (\<lambda>(i, merge) d. d(merge \<mapsto> i)) (enumerate 0 ms) Map.empty"

definition build_vocab_to_id :: "vocabulary \<Rightarrow> (bytes \<rightharpoonup> int)" where
  "build_vocab_to_id d = fold (\<lambda>(k, v) m. m(v \<mapsto> k)) d Map.empty"

definition finish_init ::
  "vocabulary \<Rightarrow> (bytes \<times> bytes) list \<Rightarrow> pystr list \<Rightarrow> pystr list option \<Rightarrow> tokenizer" where
  "finish_init d ms sts pat =
     \<lparr> vocab = d, merges = ms, special_tokens = sts, split_pattern = pat,
       merge_ranks = build_merge_ranks ms, vocab_size = length d,
       vocab_to_id = build_vocab_to_id d \<rparr>"

text \<open>
  The constructor.  \<open>if special_tokens:\<close> is false for the empty list (and for
  \<open>None\<close>, which the model does not distinguish from it).  The dictionary passed in is
  updated in place, so \<open>self.vocab\<close> holds the added special tokens.
\<close>

definition init ::
  "vocabulary \<Rightarrow> (bytes \<times> bytes) list \<Rightarrow> pystr list \<Rightarrow> error + tokenizer" where
  "init d ms sts =
     (if sts \<noteq> [] then
        (case add_special_tokens d sts of
           Inl e \<Rightarrow> Inl e
         | Inr d' \<Rightarrow> Inr (finish_init d' ms sts (Some (sorted_special_tokens sts))))
      else Inr (finish_init d ms [] None))"

subsection \<open>\<open>Tokenizer._merge_word\<close>\<close>

text \<open>
  \<open>[self.vocab_to_id[token] for token in tokens]\<close>: the first token that is not a key
  raises \<open>KeyError\<close>.
\<close>

fun lookup_ids :: "(bytes \<rightharpoonup> int) \<Rightarrow> bytes list \<Rightarrow> error + int list" where
  "lookup_ids m [] = Inr []"
| "lookup_ids m (t # ts) =
     (case m t of
        None \<Rightarrow> Inl (KeyError (BytesKey t))
      | Some i \<Rightarrow> (case lookup_ids m ts of Inl e \<Rightarrow> Inl e | Inr ids \<Rightarrow> Inr (i # ids)))"

definition merge_word :: "tokenizer \<Rightarrow> bytes list \<Rightarrow> error + int list" where
  "merge_word T word = lookup_ids (vocab_to_id T) (merge_loop (merge_ranks T) word)"


subsection \<open>\<open>Tokenizer.pretokenize\<close>\<close>

text \<open>
  \<open>re.split(self.split_pattern, text)\<close> for a pattern that is one capturing group
  around an alternation of literals.  The regex engine looks for the leftmost
  position where an alternative matches and takes the first alternative that matches
  there; the text before the match and the match itself become two elements of the
  result, and the search goes on after the match.  What remains after the last match
  is the last element.

  An empty special token gives an empty alternative, which matches the empty string
  wherever no earlier alternative matches.  An empty match splits the text like any
  other match, but the search that follows it must not return an empty match at that
  same position (\<open>must_advance\<close>): it may find a non-empty match there, or any match
  further on.  So \<open>re.split('()', 'a')\<close> is \<open>['', '', 'a', '', '']\<close>.

  \<open>match_at alts must_advance text\<close> is the match at the beginning of \<open>text\<close>, and
  \<open>re_split_from alts must_advance chunk text\<close> the rest of the result when the search
  stands at \<open>text\<close> and \<open>chunk\<close> is the unmatched text since the last match.
\<close>

fun match_at :: "pystr list \<Rightarrow> bool \<Rightarrow> pystr \<Rightarrow> pystr option" where
  "match_at [] must_advance text = None"
| "match_at (alt # alts) must_advance text =
     (if prefix alt text \<and> \<not> (must_advance \<and> alt = []) then Some alt
      else match_at alts must_advance text)"

lemma match_at_Some:
  "match_at alts b text = Some m \<Longrightarrow> m \<in> set alts \<and> prefix m text \<and> (b \<longrightarrow> m \<noteq> [])"
  by (induction alts) (auto split: if_splits)

function re_split_from :: "pystr list \<Rightarrow> bool \<Rightarrow> pystr \<Rightarrow> pystr \<Rightarrow> pystr list" where
  "re_split_from alts must_advance chunk text =
     (case match_at alts must_advance text of
        Some m \<Rightarrow> chunk # m # re_split_from alts (m = []) [] (drop (length m) text)
      | None \<Rightarrow>
          (case text of
             [] \<Rightarrow> [chunk]
           | c # rest \<Rightarrow> re_split_from alts False (chunk @ [c]) rest))"
  by pat_completeness auto
termination
proof (relation "measure (\<lambda>(alts, must_advance, chunk, text).
          2 * length text + (if must_advance then 0 else 1))", goal_cases)
  case 1
  show ?case by simp
next
  case 2
  then show ?case by simp
next
  case (3 alts must_advance chunk t m)
  from match_at_Some [OF 3] have p: "prefix m t" and b: "must_advance \<longrightarrow> m \<noteq> []"
    by simp_all
  from p have l: "length m \<le> length t" by (rule prefix_length_le)
  show ?case
  proof (cases "m = []")
    case True
    with b show ?thesis by simp
  next
    case False
    then have pos: "0 < length m" by simp
    have "0 < a \<Longrightarrow> a \<le> b \<Longrightarrow> Suc (2 * (b - a)) < 2 * b \<and> b - a < b" for a b :: nat
      by arith
    from this [OF pos l] False show ?thesis by simp
  qed
qed

declare re_split_from.simps [simp del]

definition re_split :: "pystr list \<Rightarrow> pystr \<Rightarrow> pystr list" where
  "re_split alts text = re_split_from alts False [] text"


text \<open>
  \<open>PRETOKENIZE_REGEX\<close> is imported from the module \<open>bpe\<close>; the functions below take
  \<open>re.finditer(PRETOKENIZE_REGEX, chunk)\<close> as the parameter \<open>finditer\<close>, the list of the
  matches' texts in order.

  \<open>pretokenize\<close> is a generator.  The model lists what it yields; an \<open>Inl\<close> item is
  an exception raised at that point of the iteration (by \<open>encode('utf-8')\<close>).
\<close>

definition byte_units :: "bytes \<Rightarrow> bytes list" where
  "byte_units bs = map (\<lambda>b. [b]) bs"

definition pretokenize_chunk ::
  "(pystr \<Rightarrow> pystr list) \<Rightarrow> tokenizer \<Rightarrow> pystr \<Rightarrow> (error + bytes list) list" where
  "pretokenize_chunk finditer T chunk =
     (if chunk \<in> set (special_tokens T) then [map_sum id (\<lambda>bs. [bs]) (utf8_encode chunk)]
      else map (\<lambda>word. map_sum id byte_units (utf8_encode word)) (finditer chunk))"

definition pretokenize ::
  "(pystr \<Rightarrow> pystr list) \<Rightarrow> tokenizer \<Rightarrow> pystr \<Rightarrow> (error + bytes list) list" where
  "pretokenize finditer T text =
     concat (map (pretokenize_chunk finditer T)
       (case split_pattern T of Some alts \<Rightarrow> re_split alts text | None \<Rightarrow> [text]))"

subsection \<open>\<open>Tokenizer.encode\<close> and \<open>Tokenizer.decode\<close>\<close>

text \<open>
  \<open>sum((self._merge_word(word) for word in word_iter), [])\<close>: the words are merged
  one by one as the generator yields them, and the first exception ends the call.
\<close>

fun merge_words :: "tokenizer \<Rightarrow> (error + bytes list) list \<Rightarrow> error + int list" where
  "merge_words T [] = Inr []"
| "merge_words T (w # ws) =
     (case w of
        Inl e \<Rightarrow> Inl e
      | Inr word \<Rightarrow>
          (case merge_word T word of
             Inl e \<Rightarrow> Inl e
           | Inr ids \<Rightarrow>
               (case merge_words T ws of Inl e \<Rightarrow> Inl e | Inr rest \<Rightarrow> Inr (ids @ rest))))"

definition encode :: "(pystr \<Rightarrow> pystr list) \<Rightarrow> tokenizer \<Rightarrow> pystr \<Rightarrow> error + int list" where
  "encode finditer T text = merge_words T (pretokenize finditer T text)"

text \<open>
  \<open>b"".join(self.vocab[id] for id in ids).decode("utf-8", errors="replace")\<close>
\<close>

fun lookup_bytes :: "vocabulary \<Rightarrow> int list \<Rightarrow> error + bytes list" where
  "lookup_bytes d [] = Inr []"
| "lookup_bytes d (i # ids) =
     (case dict_get d i of
        None \<Rightarrow> Inl (KeyError (IntKey i))
      | Some bs \<Rightarrow>
          (case lookup_bytes d ids of Inl e \<Rightarrow> Inl e | Inr bss \<Rightarrow> Inr (bs # bss)))"

definition decode :: "tokenizer \<Rightarrow> int list \<Rightarrow> error + pystr" where
  "decode T ids =
     (case lookup_bytes (vocab T) ids of
        Inl e \<Rightarrow> Inl e
      | Inr bss \<Rightarrow> Inr (utf8_decode_replace (concat bss)))"

text \<open>The bytes of one item that \<open>pretokenize\<close> yields.\<close>

definition item_bytes :: "error + bytes list \<Rightarrow> bytes" where
  "item_bytes it = (case it of Inl e \<Rightarrow> [] | Inr word \<Rightarrow> concat word)"

text \<open>The number of units of one item that \<open>pretokenize\<close> yields.\<close>

definition item_len :: "error + bytes list \<Rightarrow> nat" where
  "item_len it = (case it of Inl e \<Rightarrow> 0 | Inr word \<Rightarrow> length word)"

text \<open>
  A call on a freshly constructed object, \<open>Tokenizer(...).method(...)\<close>: an
  exception of the constructor ends the whole expression.
\<close>

definition bind_err :: "'e + 'a \<Rightarrow> ('a \<Rightarrow> 'e + 'b) \<Rightarrow> 'e + 'b" where
  "bind_err r f = (case r of Inl e \<Rightarrow> Inl e | Inr x \<Rightarrow> f x)"

subsection \<open>Occurrences of special tokens in a text\<close>

text \<open>
  \<open>special_at sts t\<close>: some (non-empty) special token is a prefix of \<open>t\<close>, that is, a
  special-token literal starts at the beginning of \<open>t\<close>.  \<open>special_before sts n t\<close>:
  a special-token literal starts at one of the first \<open>n\<close> positions of \<open>t\<close>.
  \<open>contains_special sts s\<close>: a special-token literal starts somewhere in \<open>s\<close>.
\<close>

definition special_at :: "pystr list \<Rightarrow> pystr \<Rightarrow> bool" where
  "special_at sts t \<longleftrightarrow> (\<exists>a\<in>set sts. a \<noteq> [] \<and> prefix a t)"

definition special_before :: "pystr list \<Rightarrow> nat \<Rightarrow> pystr \<Rightarrow> bool" where
  "special_before sts n t \<longleftrightarrow> list_ex (\<lambda>i. special_at sts (drop i t)) [0..<n]"

definition contains_special :: "pystr list \<Rightarrow> pystr \<Rightarrow> bool" where
  "contains_special sts s \<longleftrightarrow> special_before sts (length s) s"

subsection \<open>Concrete inputs used for evaluation\<close>

text \<open>A Python string literal of ASCII characters, as its code points.\<close>

definition str :: "string \<Rightarrow> pystr" where
  "str s = map of_char s"

text \<open>
  An instance of the parameter \<open>finditer\<close>, for evaluating the functions on concrete
  inputs: each match is an optional space followed by a run of non-space characters,
  or a single space that no word follows directly.
\<close>

fun words_from :: "pystr \<Rightarrow> pystr \<Rightarrow> pystr list" where
  "words_from cur [] = (if cur = [] then [] else [cur])"
| "words_from cur (c # rest) =
     (if c = 32 then (if cur = [] then [] else [cur]) @ words_from [c] rest
      else words_from (cur @ [c]) rest)"

definition words :: "pystr \<Rightarrow> pystr list" where
  "words s = words_from [] s"


text \<open>The vocabulary of the 256 single bytes, byte \<open>n\<close> with id \<open>n\<close>.\<close>

definition byte_vocab :: vocabulary where
  "byte_vocab = map (\<lambda>n. (n, [char_of n])) [0..255]"

text \<open>
  A small vocabulary with ids \<open>0..5\<close>, and the two special tokens of the
  specification's example, one a prefix of the other.
\<close>

definition pad_vocab :: vocabulary where
  "pad_vocab = [(0, ''<''), (1, ''|''), (2, ''>''), (3, ''p''), (4, ''a''), (5, ''d'')]"

definition eot_tokens :: "pystr list" where
  "eot_tokens = [str ''<|endoftext|>'', str ''<|endoftext|><|pad|>'']"

definition ab_vocab :: vocabulary where
  "ab_vocab = [(0, ''a''), (1, ''b'')]"

section \<open>Properties\<close>

subsection \<open>The lookup tables built by the constructor\<close>

lemma build_merge_ranks_snoc:
  "build_merge_ranks (ms @ [m]) = (build_merge_ranks ms)(m \<mapsto> length ms)"
  by (simp add: build_merge_ranks_def enumerate_append_eq)

lemma build_merge_ranks_None: "build_merge_ranks ms p = None \<longleftrightarrow> p \<notin> set ms"
proof (induction ms rule: rev_induct)
  case Nil
  show ?case by (simp add: build_merge_ranks_def)
next
  case (snoc m ms)
  then show ?case by (auto simp: build_merge_ranks_snoc)
qed

lemma build_merge_ranks_Some:
  "build_merge_ranks ms p = Some i \<longleftrightarrow>
     i < length ms \<and> ms ! i = p \<and> (\<forall>j<length ms. ms ! j = p \<longrightarrow> j \<le> i)"
proof (induction ms rule: rev_induct)
  case Nil
  show ?case by (simp add: build_merge_ranks_def)
next
  case (snoc m ms)
  show ?case
  proof (cases "p = m")
    case True
    then show ?thesis
      by (auto simp: build_merge_ranks_snoc nth_append less_Suc_eq)
  next
    case False
    then show ?thesis
      using snoc.IH
      by (auto simp: build_merge_ranks_snoc nth_append less_Suc_eq)
  qed
qed

lemma build_vocab_to_id_snoc:
  "build_vocab_to_id (d @ [(k, v)]) = (build_vocab_to_id d)(v \<mapsto> k)"
  by (simp add: build_vocab_to_id_def)

lemma build_vocab_to_id_None: "build_vocab_to_id d v = None \<longleftrightarrow> v \<notin> set (map snd d)"
proof (induction d rule: rev_induct)
  case Nil
  show ?case by (simp add: build_vocab_to_id_def)
next
  case (snoc kv d)
  then show ?case by (cases kv) (auto simp: build_vocab_to_id_snoc)
qed

lemma build_vocab_to_id_Some: "build_vocab_to_id d v = Some k \<Longrightarrow> (k, v) \<in> set d"
proof (induction d rule: rev_induct)
  case Nil
  then show ?case by (simp add: build_vocab_to_id_def)
next
  case (snoc kv d)
  then show ?case by (cases kv) (auto simp: build_vocab_to_id_snoc split: if_splits)
qed

subsection \<open>The pair chosen in one iteration\<close>

lemma min_key_from_le:
  "key (min_key_from key best xs) \<le> key best \<and>
   (\<forall>x\<in>set xs. key (min_key_from key best xs) \<le> key x)"
  by (induction xs arbitrary: best) (fastforce)+

lemma best_pair_None:
  "best_pair ranks tokens = None \<longleftrightarrow> (\<forall>p\<in>set (get_pairs tokens). ranks p = None)"
proof -
  have "best_pair ranks tokens = None \<longleftrightarrow> merge_candidates ranks tokens = []"
    by (simp add: best_pair_def split: list.splits)
  then show ?thesis
    by (simp add: merge_candidates_def filter_empty_conv)
qed

lemma best_pair_minimal:
  assumes "best_pair ranks tokens = Some bp"
  shows "\<exists>r. ranks bp = Some r \<and>
           (\<forall>q\<in>set (get_pairs tokens). \<forall>r'. ranks q = Some r' \<longrightarrow> r \<le> r')"
proof -
  from assms obtain c cs where cs: "merge_candidates ranks tokens = c # cs"
    and bp: "bp = min_key_from (\<lambda>pair. the (ranks pair)) c cs"
    by (auto simp: best_pair_def split: list.splits)
  from best_pair_candidate [OF assms] obtain r where r: "ranks bp = Some r"
    by (auto simp: merge_candidates_def)
  have "r \<le> r'" if "q \<in> set (get_pairs tokens)" "ranks q = Some r'" for q r'
  proof -
    from that have "q \<in> set (c # cs)"
      unfolding cs [symmetric] by (simp add: merge_candidates_def)
    with min_key_from_le [of "\<lambda>pair. the (ranks pair)" c cs] bp
    have "the (ranks bp) \<le> the (ranks q)" by auto
    with r that show ?thesis by simp
  qed
  with r show ?thesis by blast
qed



subsection \<open>The merge engine\<close>

text \<open>
  Claim C2.  In every iteration of the merge loop the pair that is merged is an
  adjacent pair of the current units that has a rank, and no adjacent pair with a rank
  has a lower one; the loop stops exactly when no adjacent pair has a rank.  With the
  vocabulary \<open>{0:'a', 1:'b', 2:'ab', 3:'bc', 4:'abc'}\<close> and the merge rules
  \<open>[('a','b'), ('b','c'), ('ab','c')]\<close>, merging the units \<open>['a','b','c']\<close> yields
  the ids \<open>[4]\<close>.
\<close>

theorem merge_loop_lowest_rank:
  "(best_pair ranks tokens = None \<longleftrightarrow> (\<forall>p\<in>set (get_pairs tokens). ranks p = None)) \<and>
   (\<forall>bp. best_pair ranks tokens = Some bp \<longrightarrow>
      bp \<in> set (get_pairs tokens) \<and>
      (\<exists>r. ranks bp = Some r \<and>
         (\<forall>q\<in>set (get_pairs tokens). \<forall>r'. ranks q = Some r' \<longrightarrow> r \<le> r'))) \<and>
   merge_loop ranks tokens =
     (case best_pair ranks tokens of
        None \<Rightarrow> tokens
      | Some bp \<Rightarrow> merge_loop ranks (merge_round bp tokens)) \<and>
   bind_err
     (init [(0, ''a''), (1, ''b''), (2, ''ab''), (3, ''bc''), (4, ''abc'')]
        [(''a'', ''b''), (''b'', ''c''), (''ab'', ''c'')] [])
     (\<lambda>T. merge_word T [''a'', ''b'', ''c'']) = Inr [4]"
proof -
  have ex: "bind_err
     (init [(0, ''a''), (1, ''b''), (2, ''ab''), (3, ''bc''), (4, ''abc'')]
        [(''a'', ''b''), (''b'', ''c''), (''ab'', ''c'')] [])
     (\<lambda>T. merge_word T [''a'', ''b'', ''c'']) = Inr [4]"
    by code_simp
  have loop: "merge_loop ranks tokens =
     (case best_pair ranks tokens of
        None \<Rightarrow> tokens
      | Some bp \<Rightarrow> merge_loop ranks (merge_round bp tokens))"
    by (rule merge_loop.simps)
  show ?thesis
    using best_pair_None [of ranks tokens] best_pair_minimal [of ranks tokens]
      best_pair_in_pairs [of ranks tokens] ex loop
    by blast
qed

theorem merge_loop_lowest_rank_witness:
  "best_pair (build_merge_ranks [(''a'', ''b''), (''b'', ''c''), (''ab'', ''c'')])
      [''a'', ''b'', ''c''] = Some (''a'', ''b'') \<and>
   (''a'', ''b'') \<in> set (get_pairs [''a'', ''b'', ''c'']) \<and>
   (''b'', ''c'') \<in> set (get_pairs [''a'', ''b'', ''c'']) \<and>
   build_merge_ranks [(''a'', ''b''), (''b'', ''c''), (''ab'', ''c'')] (''a'', ''b'') = Some 0 \<and>
   build_merge_ranks [(''a'', ''b''), (''b'', ''c''), (''ab'', ''c'')] (''b'', ''c'') = Some 1 \<and>
   best_pair (build_merge_ranks [(''a'', ''b''), (''b'', ''c''), (''ab'', ''c'')])
      [''ab'', ''c''] = Some (''ab'', ''c'') \<and>
   best_pair (build_merge_ranks [(''a'', ''b''), (''b'', ''c''), (''ab'', ''c'')])
      [''abc''] = None \<and>
   merge_loop (build_merge_ranks [(''a'', ''b''), (''b'', ''c''), (''ab'', ''c'')])
      [''a'', ''b'', ''c''] = [''abc'']"
proof -
  let ?ranks = "build_merge_ranks [(''a'', ''b''), (''b'', ''c''), (''ab'', ''c'')]"
  have b: "best_pair ?ranks [''a'', ''b'', ''c''] = Some (''a'', ''b'')"
    by code_simp
  have rest: "(''b'', ''c'') \<in> set (get_pairs [''a'', ''b'', ''c'']) \<and>
    ?ranks (''a'', ''b'') = Some 0 \<and> ?ranks (''b'', ''c'') = Some 1 \<and>
    best_pair ?ranks [''ab'', ''c''] = Some (''ab'', ''c'') \<and>
    best_pair ?ranks [''abc''] = None \<and>
    merge_loop ?ranks [''a'', ''b'', ''c''] = [''abc'']"
    by code_simp
  from merge_loop_lowest_rank [of ?ranks "[''a'', ''b'', ''c'']"] b
  have "(''a'', ''b'') \<in> set (get_pairs [''a'', ''b'', ''c''])" by blast
  with b rest show ?thesis by blast
qed


text \<open>
  Claim C3.  One round is a single greedy scan from the left: where the next two
  units are the winning pair they are replaced by their concatenation and the scan
  goes on after both; otherwise the next unit is kept and the scan advances by one.
  So for a rule \<open>(a, a)\<close> the units \<open>[a, a, a]\<close> become \<open>[aa, a]\<close>.
\<close>

theorem merge_round_greedy_scan:
  "merge_round bp [] = [] \<and>
   merge_round bp [x] = [x] \<and>
   merge_round bp (x # y # rest) =
     (if (x, y) = bp then (fst bp @ snd bp) # merge_round bp rest
      else x # merge_round bp (y # rest)) \<and>
   merge_round (a, a) [a, a, a] = [a @ a, a]"
  by (simp add: merge_round_greedy)



subsection \<open>Mapping the final units to ids\<close>

lemma lookup_ids_Inr:
  "(\<forall>u\<in>set units. m u \<noteq> None) \<Longrightarrow> lookup_ids m units = Inr (map (\<lambda>u. the (m u)) units)"
  by (induction units) auto

lemma lookup_ids_Inl:
  "\<exists>u\<in>set units. m u = None \<Longrightarrow>
   \<exists>u\<in>set units. m u = None \<and> lookup_ids m units = Inl (KeyError (BytesKey u))"
proof (induction units)
  case Nil
  then show ?case by simp
next
  case (Cons a units)
  show ?case
  proof (cases "m a")
    case None
    then show ?thesis by simp
  next
    case (Some i)
    with Cons.prems have "\<exists>u\<in>set units. m u = None" by auto
    from Cons.IH [OF this] Some show ?thesis by auto
  qed
qed

lemma init_tables:
  "init d ms sts = Inr T \<Longrightarrow>
   merge_ranks T = build_merge_ranks ms \<and> vocab_to_id T = build_vocab_to_id (vocab T) \<and>
   merges T = ms \<and> special_tokens T = sts \<and>
   split_pattern T = (if sts = [] then None else Some (sorted_special_tokens sts))"
  by (auto simp: init_def finish_init_def split: if_splits sum.splits)

text \<open>
  Claim C7.  For a constructed tokenizer, mapping the final units of a pretoken to
  ids fails exactly when some final unit is not a value of the vocabulary; the
  exception is the \<open>KeyError\<close> of such a unit (the specification's
  \<open>UnknownTokenError\<close>).  When every final unit is a value of the vocabulary, the
  result is one id per unit, each an id of that unit in the vocabulary.
\<close>

theorem merge_word_unknown_token:
  assumes "init d ms sts = Inr T"
  shows "((\<exists>u\<in>set (merge_loop (merge_ranks T) word). u \<notin> set (map snd (vocab T))) \<longrightarrow>
            (\<exists>u\<in>set (merge_loop (merge_ranks T) word).
               u \<notin> set (map snd (vocab T)) \<and> merge_word T word = Inl (KeyError (BytesKey u)))) \<and>
         ((\<forall>u\<in>set (merge_loop (merge_ranks T) word). u \<in> set (map snd (vocab T))) \<longrightarrow>
            (\<exists>ids. merge_word T word = Inr ids \<and>
               length ids = length (merge_loop (merge_ranks T) word) \<and>
               (\<forall>i<length ids. (ids ! i, merge_loop (merge_ranks T) word ! i) \<in> set (vocab T))))"
proof -
  let ?units = "merge_loop (merge_ranks T) word"
  from init_tables [OF assms] have m: "vocab_to_id T = build_vocab_to_id (vocab T)" by simp
  have absent: "vocab_to_id T u = None \<longleftrightarrow> u \<notin> set (map snd (vocab T))" for u
    unfolding m by (rule build_vocab_to_id_None)
  have "\<exists>u\<in>set ?units. u \<notin> set (map snd (vocab T)) \<and> merge_word T word = Inl (KeyError (BytesKey u))"
    if "\<exists>u\<in>set ?units. u \<notin> set (map snd (vocab T))"
  proof -
    from that have "\<exists>u\<in>set ?units. vocab_to_id T u = None" by (simp add: absent)
    from lookup_ids_Inl [OF this] show ?thesis
      by (simp add: merge_word_def absent)
  qed
  moreover have "\<exists>ids. merge_word T word = Inr ids \<and> length ids = length ?units \<and>
      (\<forall>i<length ids. (ids ! i, ?units ! i) \<in> set (vocab T))"
    if all: "\<forall>u\<in>set ?units. u \<in> set (map snd (vocab T))"
  proof -
    from all have p: "\<forall>u\<in>set ?units. vocab_to_id T u \<noteq> None" by (simp add: absent)
    have r: "merge_word T word = Inr (map (\<lambda>u. the (vocab_to_id T u)) ?units)"
      unfolding merge_word_def by (rule lookup_ids_Inr [OF p])
    have "(the (vocab_to_id T (?units ! i)), ?units ! i) \<in> set (vocab T)" if "i < length ?units" for i
    proof -
      from that p obtain k where k: "vocab_to_id T (?units ! i) = Some k" by fastforce
      then have "(k, ?units ! i) \<in> set (vocab T)"
        unfolding m by (rule build_vocab_to_id_Some)
      with k show ?thesis by simp
    qed
    with r show ?thesis by simp
  qed
  ultimately show ?thesis by blast
qed

theorem merge_word_unknown_token_witness:
  "init [(0, ''a''), (1, ''b''), (2, ''ab'')] [(''a'', ''b'')] []
     = Inr (finish_init [(0, ''a''), (1, ''b''), (2, ''ab'')] [(''a'', ''b'')] [] None) \<and>
   merge_loop (build_merge_ranks [(''a'', ''b'')]) [''a'', ''b'', ''c''] = [''ab'', ''c''] \<and>
   merge_word (finish_init [(0, ''a''), (1, ''b''), (2, ''ab'')] [(''a'', ''b'')] [] None)
     [''a'', ''b'', ''c''] = Inl (KeyError (BytesKey ''c'')) \<and>
   merge_loop (build_merge_ranks [(''a'', ''b'')]) [''a'', ''b'', ''b''] = [''ab'', ''b''] \<and>
   merge_word (finish_init [(0, ''a''), (1, ''b''), (2, ''ab'')] [(''a'', ''b'')] [] None)
     [''a'', ''b'', ''b''] = Inr [2, 1]"
proof -
  let ?d = "[(0::int, ''a''), (1, ''b''), (2, ''ab'')]"
  let ?T = "finish_init ?d [(''a'', ''b'')] [] None"
  have i: "init ?d [(''a'', ''b'')] [] = Inr ?T"
    by (simp add: init_def)
  have l1: "merge_loop (merge_ranks ?T) [''a'', ''b'', ''c''] = [''ab'', ''c'']"
    by code_simp
  have l2: "merge_loop (merge_ranks ?T) [''a'', ''b'', ''b''] = [''ab'', ''b'']"
    by code_simp
  have v: "vocab ?T = ?d" "merge_ranks ?T = build_merge_ranks [(''a'', ''b'')]"
    by (simp_all add: finish_init_def)
  from merge_word_unknown_token [OF i, of "[''a'', ''b'', ''c'']"]
  have "merge_word ?T [''a'', ''b'', ''c''] = Inl (KeyError (BytesKey ''c''))"
    unfolding l1 unfolding v by simp
  moreover
  from merge_word_unknown_token [OF i, of "[''a'', ''b'', ''b'']"]
  obtain ids where ids: "merge_word ?T [''a'', ''b'', ''b''] = Inr ids" "length ids = 2"
    "\<forall>i<length ids. (ids ! i, [''ab'', ''b''] ! i) \<in> set ?d"
    unfolding l2 unfolding v by auto
  from ids(2) obtain x y where xy: "ids = [x, y]"
    by (cases ids; cases "tl ids") auto
  from ids(3) have "x = 2 \<and> y = 1"
    unfolding xy by (auto simp: less_Suc_eq)
  with ids(1) xy have "merge_word ?T [''a'', ''b'', ''b''] = Inr [2, 1]" by simp
  ultimately show ?thesis using i l1 l2 unfolding v by simp
qed



subsection \<open>Duplicate merge rules\<close>

text \<open>
  Claim C8, as amended.  If a pair occurs at more than one position of the merge
  rules, its rank in the constructed tokenizer is the position of its last
  occurrence: the dictionary comprehension that builds the rank table stores a later
  entry over an earlier one.  (The claim says the first occurrence; the
  counterexample evaluates the rank table, and a merge that depends on it, for the
  rules \<open>[('a','b'), ('b','c'), ('a','b')]\<close>.)
\<close>

theorem duplicate_rule_last_rank:
  assumes "init d ms sts = Inr T" and "p \<in> set ms"
  shows "\<exists>i<length ms. merge_ranks T p = Some i \<and> ms ! i = p \<and>
           (\<forall>j<length ms. ms ! j = p \<longrightarrow> j \<le> i)"
proof -
  from init_tables [OF assms(1)] have r: "merge_ranks T = build_merge_ranks ms" by simp
  from assms(2) obtain i where "build_merge_ranks ms p = Some i"
    using build_merge_ranks_None [of ms p] by auto
  with build_merge_ranks_Some [of ms p i] r show ?thesis by auto
qed

theorem duplicate_rule_last_rank_witness:
  "init [(0, ''a''), (1, ''b''), (2, ''c''), (3, ''ab''), (4, ''bc'')]
      [(''a'', ''b''), (''b'', ''c''), (''a'', ''b'')] []
     = Inr (finish_init [(0, ''a''), (1, ''b''), (2, ''c''), (3, ''ab''), (4, ''bc'')]
         [(''a'', ''b''), (''b'', ''c''), (''a'', ''b'')] [] None) \<and>
   (''a'', ''b'') \<in> set [(''a'', ''b''), (''b'', ''c''), (''a'', ''b'')] \<and>
   merge_ranks (finish_init [(0, ''a''), (1, ''b''), (2, ''c''), (3, ''ab''), (4, ''bc'')]
         [(''a'', ''b''), (''b'', ''c''), (''a'', ''b'')] [] None) (''a'', ''b'') = Some 2"
proof -
  let ?d = "[(0::int, ''a''), (1, ''b''), (2, ''c''), (3, ''ab''), (4, ''bc'')]"
  let ?ms = "[(''a'', ''b''), (''b'', ''c''), (''a'', ''b'')]"
  let ?T = "finish_init ?d ?ms [] None"
  have i: "init ?d ?ms [] = Inr ?T" by (simp add: init_def)
  have m: "(''a'', ''b'') \<in> set ?ms" by simp
  from duplicate_rule_last_rank [OF i m] obtain k where k: "k < length ?ms"
    "merge_ranks ?T (''a'', ''b'') = Some k" "\<forall>j<length ?ms. ?ms ! j = (''a'', ''b'') \<longrightarrow> j \<le> k"
    by blast
  from k(3) have "2 \<le> k" by simp
  with k(1) have "k = 2" by simp
  with k(2) i m show ?thesis by simp
qed

theorem duplicate_rule_first_rank_counterexample:
  "[(''a'', ''b''), (''b'', ''c''), (''a'', ''b'')] ! 0 = (''a'', ''b'') \<and>
   bind_err
     (init [(0, ''a''), (1, ''b''), (2, ''c''), (3, ''ab''), (4, ''bc'')]
        [(''a'', ''b''), (''b'', ''c''), (''a'', ''b'')] [])
     (\<lambda>T. Inr (merge_ranks T (''a'', ''b''), merge_ranks T (''b'', ''c''))) = Inr (Some 2, Some 1) \<and>
   bind_err
     (init [(0, ''a''), (1, ''b''), (2, ''c''), (3, ''ab''), (4, ''bc'')]
        [(''a'', ''b''), (''b'', ''c''), (''a'', ''b'')] [])
     (\<lambda>T. merge_word T [''a'', ''b'', ''c'']) = Inr [0, 4]"
  by code_simp


subsection \<open>Termination of the merge loop\<close>

lemma get_pairs_length: "bp \<in> set (get_pairs tokens) \<Longrightarrow> 2 \<le> length tokens"
  by (cases tokens; cases "tl tokens") (auto simp: get_pairs_def)

lemma merge_loop_rounds:
  "\<exists>n. n \<le> length tokens - 1 \<and>
       (\<forall>k<n. best_pair ranks ((merge_iteration ranks ^^ k) tokens) \<noteq> None) \<and>
       best_pair ranks ((merge_iteration ranks ^^ n) tokens) = None \<and>
       merge_loop ranks tokens = (merge_iteration ranks ^^ n) tokens"
proof (induction ranks tokens rule: merge_loop.induct)
  case (1 ranks tokens)
  show ?case
  proof (cases "best_pair ranks tokens")
    case None
    then have "merge_loop ranks tokens = tokens"
      by (subst merge_loop.simps) simp
    with None show ?thesis
      by (intro exI [of _ 0]) simp
  next
    case (Some bp)
    let ?t = "merge_round bp tokens"
    from "1.IH" [OF Some] obtain n where n: "n \<le> length ?t - 1"
      "\<forall>k<n. best_pair ranks ((merge_iteration ranks ^^ k) ?t) \<noteq> None"
      "best_pair ranks ((merge_iteration ranks ^^ n) ?t) = None"
      "merge_loop ranks ?t = (merge_iteration ranks ^^ n) ?t"
      by blast
    have it: "merge_iteration ranks tokens = ?t"
      by (simp add: merge_iteration_def Some)
    have step: "(merge_iteration ranks ^^ Suc k) tokens = (merge_iteration ranks ^^ k) ?t" for k
      by (simp add: funpow_swap1 it)
    have len: "2 \<le> length tokens"
      using best_pair_in_pairs [OF Some] by (rule get_pairs_length)
    have b: "Suc n \<le> length tokens - 1"
      using n(1) merge_round_shrinks [OF Some] len by arith
    have loop: "merge_loop ranks tokens = (merge_iteration ranks ^^ Suc n) tokens"
      unfolding step n(4) [symmetric] by (subst merge_loop.simps) (simp add: Some)
    have before: "best_pair ranks ((merge_iteration ranks ^^ k) tokens) \<noteq> None" if "k < Suc n" for k
    proof (cases k)
      case 0
      with Some show ?thesis by simp
    next
      case (Suc j)
      with that n(2) show ?thesis unfolding Suc step by simp
    qed
    have last: "best_pair ranks ((merge_iteration ranks ^^ Suc n) tokens) = None"
      unfolding step by (rule n(3))
    from b before last loop show ?thesis
      by (intro exI [of _ "Suc n"]) blast
  qed
qed

text \<open>
  Claim C9.  The merge loop terminates for every pretoken: a round for the chosen
  pair strictly decreases the number of units, and the loop returns after at most
  \<open>len(word) - 1\<close> rounds, in a state where no adjacent pair has a rank.
\<close>

theorem merge_loop_terminates:
  "(\<forall>bp. best_pair ranks tokens = Some bp \<longrightarrow> length (merge_round bp tokens) < length tokens) \<and>
   (\<exists>n. n \<le> length tokens - 1 \<and>
       (\<forall>k<n. best_pair ranks ((merge_iteration ranks ^^ k) tokens) \<noteq> None) \<and>
       best_pair ranks ((merge_iteration ranks ^^ n) tokens) = None \<and>
       merge_loop ranks tokens = (merge_iteration ranks ^^ n) tokens)"
  using merge_round_shrinks [of ranks tokens] merge_loop_rounds [of tokens ranks]
  by blast

theorem merge_loop_terminates_witness:
  "best_pair (build_merge_ranks [(''a'', ''b''), (''b'', ''c''), (''ab'', ''c'')])
     [''a'', ''b'', ''c''] = Some (''a'', ''b'') \<and>
   length (merge_round (''a'', ''b'') [''a'', ''b'', ''c'']) < length [''a'', ''b'', ''c'']"
proof -
  let ?ranks = "build_merge_ranks [(''a'', ''b''), (''b'', ''c''), (''ab'', ''c'')]"
  have b: "best_pair ?ranks [''a'', ''b'', ''c''] = Some (''a'', ''b'')"
    by code_simp
  with merge_loop_terminates [of ?ranks "[''a'', ''b'', ''c'']"] show ?thesis
    by blast
qed





subsection \<open>UTF-8: decoding what was encoded\<close>

text \<open>
  A code point is split into its base-64 digits; the decoder is then run on the bytes
  of each of the four forms.
\<close>

lemma cp_split3: "(c::int) = c div 4096 * 4096 + c div 64 mod 64 * 64 + c mod 64"
proof -
  have "c div 64 div 64 = c div 4096"
    by (simp add: zdiv_zmult2_eq [symmetric])
  then have "c div 64 = c div 4096 * 64 + c div 64 mod 64"
    by (metis div_mult_mod_eq)
  then have "c div 64 * 64 = c div 4096 * 4096 + c div 64 mod 64 * 64"
    by (simp add: algebra_simps)
  moreover have "c = c div 64 * 64 + c mod 64" by simp
  ultimately show ?thesis by simp
qed

lemma cp_split4:
  "(c::int) = c div 262144 * 262144 + c div 4096 mod 64 * 4096 + c div 64 mod 64 * 64 + c mod 64"
proof -
  have "c div 4096 div 64 = c div 262144"
    by (simp add: zdiv_zmult2_eq [symmetric])
  then have "c div 4096 = c div 262144 * 64 + c div 4096 mod 64"
    by (metis div_mult_mod_eq)
  then have "c div 4096 * 4096 = c div 262144 * 262144 + c div 4096 mod 64 * 4096"
    by (simp add: algebra_simps)
  with cp_split3 [of c] show ?thesis by simp
qed

lemma dec1: "0 \<le> c \<Longrightarrow> c < 0x80 \<Longrightarrow> utf8_dec (c # bs) = c # utf8_dec bs"
  by (subst utf8_dec.simps(2)) simp

lemma dec2:
  assumes "2 \<le> h" "h < 32" "0 \<le> l" "l < 64"
  shows "utf8_dec ((0xC0 + h) # (0x80 + l) # bs) = (h * 64 + l) # utf8_dec bs"
  using assms by (subst utf8_dec.simps(2)) (simp add: is_cont_def)

lemma second_ok3:
  assumes "0 \<le> h" "h < 16" "0 \<le> m" "m < 64" "0 \<le> l" "l < 64"
    "0x800 \<le> h * 4096 + m * 64 + l"
    "\<not> (0xD800 \<le> h * 4096 + m * 64 + l \<and> h * 4096 + m * 64 + l \<le> 0xDFFF)"
  shows "second_ok (0xE0 + h) (0x80 + m)"
proof -
  have "h \<noteq> 0" if "m < 32" using that assms by arith
  moreover have "h \<noteq> 13" if "\<not> m < 32" using that assms by arith
  ultimately show ?thesis
    using assms by (auto simp: second_ok_def is_cont_def)
qed

lemma dec3:
  assumes "0 \<le> h" "h < 16" "0 \<le> m" "m < 64" "0 \<le> l" "l < 64"
    "0x800 \<le> h * 4096 + m * 64 + l"
    "\<not> (0xD800 \<le> h * 4096 + m * 64 + l \<and> h * 4096 + m * 64 + l \<le> 0xDFFF)"
  shows "utf8_dec ((0xE0 + h) # (0x80 + m) # (0x80 + l) # bs) = (h * 4096 + m * 64 + l) # utf8_dec bs"
  using assms(1-6) second_ok3 [OF assms]
  by (subst utf8_dec.simps(2)) (simp add: is_cont_def)

lemma second_ok4:
  assumes "0 \<le> h" "0 \<le> m" "m < 64" "0 \<le> n" "n < 64" "0 \<le> l" "l < 64"
    "0x10000 \<le> h * 262144 + m * 4096 + n * 64 + l"
    "h * 262144 + m * 4096 + n * 64 + l < 0x110000"
  shows "second_ok (0xF0 + h) (0x80 + m)"
proof -
  have "h \<noteq> 0" if "m < 16" using that assms by arith
  moreover have "h \<noteq> 4" if "\<not> m < 16" using that assms by arith
  ultimately show ?thesis
    using assms by (auto simp: second_ok_def is_cont_def)
qed

lemma dec4:
  assumes "0 \<le> h" "0 \<le> m" "m < 64" "0 \<le> n" "n < 64" "0 \<le> l" "l < 64"
    "0x10000 \<le> h * 262144 + m * 4096 + n * 64 + l"
    "h * 262144 + m * 4096 + n * 64 + l < 0x110000"
  shows "utf8_dec ((0xF0 + h) # (0x80 + m) # (0x80 + n) # (0x80 + l) # bs)
           = (h * 262144 + m * 4096 + n * 64 + l) # utf8_dec bs"
proof -
  have "h < 5" using assms by arith
  with assms(1-7) second_ok4 [OF assms] show ?thesis
    by (subst utf8_dec.simps(2)) (simp add: is_cont_def)
qed


lemma of_char_char_of_int: "0 \<le> n \<Longrightarrow> n < 256 \<Longrightarrow> of_char (char_of (n::int)) = n"
  by simp

lemma bytes1:
  assumes "0 \<le> c" "c < 0x80"
  shows "map of_char (utf8_char c) = [c]"
proof -
  have b: "of_char (char_of c) = c"
    using assms by (simp only: of_char_char_of_int)
  have u: "utf8_char c = [char_of c]"
    using assms by (simp add: utf8_char_def)
  show ?thesis unfolding u by (simp only: list.map b)
qed

lemma bytes2:
  assumes "0x80 \<le> c" "c < 0x800"
  shows "map of_char (utf8_char c) = [0xC0 + c div 64, 0x80 + c mod 64]"
proof -
  have r: "2 \<le> c div 64" "c div 64 < 32" "0 \<le> c mod 64" "c mod 64 < 64"
    using assms by simp_all
  have b: "of_char (char_of (0xC0 + c div 64)) = 0xC0 + c div 64"
    "of_char (char_of (0x80 + c mod 64)) = 0x80 + c mod 64"
    using r by (simp_all only: of_char_char_of_int)
  have u: "utf8_char c = [char_of (0xC0 + c div 64), char_of (0x80 + c mod 64)]"
    using assms by (simp add: utf8_char_def)
  show ?thesis unfolding u by (simp only: list.map b)
qed

lemma bytes3:
  assumes "0x800 \<le> c" "c < 0x10000"
  shows "map of_char (utf8_char c) =
           [0xE0 + c div 4096, 0x80 + c div 64 mod 64, 0x80 + c mod 64]"
proof -
  have r: "0 \<le> c div 4096" "c div 4096 < 16" "0 \<le> c div 64 mod 64" "c div 64 mod 64 < 64"
    "0 \<le> c mod 64" "c mod 64 < 64"
    using assms by simp_all
  have b: "of_char (char_of (0xE0 + c div 4096)) = 0xE0 + c div 4096"
    "of_char (char_of (0x80 + c div 64 mod 64)) = 0x80 + c div 64 mod 64"
    "of_char (char_of (0x80 + c mod 64)) = 0x80 + c mod 64"
    using r by (simp_all only: of_char_char_of_int)
  have u: "utf8_char c =
      [char_of (0xE0 + c div 4096), char_of (0x80 + c div 64 mod 64), char_of (0x80 + c mod 64)]"
    using assms by (simp add: utf8_char_def)
  show ?thesis unfolding u by (simp only: list.map b)
qed

lemma bytes4:
  assumes "0x10000 \<le> c" "c < 0x110000"
  shows "map of_char (utf8_char c) =
           [0xF0 + c div 262144, 0x80 + c div 4096 mod 64, 0x80 + c div 64 mod 64,
            0x80 + c mod 64]"
proof -
  have r: "0 \<le> c div 262144" "c div 262144 < 5" "0 \<le> c div 4096 mod 64"
    "c div 4096 mod 64 < 64" "0 \<le> c div 64 mod 64" "c div 64 mod 64 < 64"
    "0 \<le> c mod 64" "c mod 64 < 64"
    using assms by simp_all
  have b: "of_char (char_of (0xF0 + c div 262144)) = 0xF0 + c div 262144"
    "of_char (char_of (0x80 + c div 4096 mod 64)) = 0x80 + c div 4096 mod 64"
    "of_char (char_of (0x80 + c div 64 mod 64)) = 0x80 + c div 64 mod 64"
    "of_char (char_of (0x80 + c mod 64)) = 0x80 + c mod 64"
    using r by (simp_all only: of_char_char_of_int)
  have u: "utf8_char c =
      [char_of (0xF0 + c div 262144), char_of (0x80 + c div 4096 mod 64),
       char_of (0x80 + c div 64 mod 64), char_of (0x80 + c mod 64)]"
    using assms by (simp add: utf8_char_def)
  show ?thesis unfolding u by (simp only: list.map b)
qed

lemma utf8_dec_char:
  assumes "encodable c"
  shows "utf8_dec (map of_char (utf8_char c) @ bs) = c # utf8_dec bs"
proof -
  from assms have c0: "0 \<le> c" by (simp add: encodable_def)
  consider "c < 0x80" | "0x80 \<le> c" "c < 0x800" | "0x800 \<le> c" "c < 0x10000"
    | "0x10000 \<le> c" "c < 0x110000"
    using assms unfolding encodable_def by linarith
  then show ?thesis
  proof cases
    case 1
    with c0 show ?thesis by (simp add: bytes1 dec1)
  next
    case 2
    have r: "2 \<le> c div 64" "c div 64 < 32" "0 \<le> c mod 64" "c mod 64 < 64"
      using 2 by simp_all
    have "utf8_dec ((0xC0 + c div 64) # (0x80 + c mod 64) # bs) = c # utf8_dec bs"
      using dec2 [OF r] by simp
    then show ?thesis by (simp add: bytes2 [OF 2])
  next
    case 3
    let ?h = "c div 4096" and ?m = "c div 64 mod 64" and ?l = "c mod 64"
    have r: "0 \<le> ?h" "?h < 16" "0 \<le> ?m" "?m < 64" "0 \<le> ?l" "?l < 64"
      using 3 by simp_all
    have c: "?h * 4096 + ?m * 64 + ?l = c"
      using cp_split3 [of c] by simp
    have "utf8_dec ((0xE0 + ?h) # (0x80 + ?m) # (0x80 + ?l) # bs) = c # utf8_dec bs"
      using dec3 [of ?h ?m ?l bs] r 3 assms unfolding c encodable_def by simp
    then show ?thesis by (simp add: bytes3 [OF 3])
  next
    case 4
    let ?h = "c div 262144" and ?m = "c div 4096 mod 64" and ?n = "c div 64 mod 64" and ?l = "c mod 64"
    have r: "0 \<le> ?h" "?h < 5" "0 \<le> ?m" "?m < 64" "0 \<le> ?n" "?n < 64" "0 \<le> ?l" "?l < 64"
      using 4 by simp_all
    have c: "?h * 262144 + ?m * 4096 + ?n * 64 + ?l = c"
      using cp_split4 [of c] by simp
    have "utf8_dec ((0xF0 + ?h) # (0x80 + ?m) # (0x80 + ?n) # (0x80 + ?l) # bs) = c # utf8_dec bs"
      using dec4 [of ?h ?m ?n ?l bs] r 4 unfolding c by simp
    then show ?thesis by (simp add: bytes4 [OF 4])
  qed
qed

lemma utf8_dec_concat:
  "list_all encodable s \<Longrightarrow> utf8_dec (map of_char (utf8_bytes s)) = s"
proof (induction s)
  case Nil
  show ?case by (simp add: utf8_bytes_def)
next
  case (Cons c s)
  then show ?case by (simp add: utf8_dec_char utf8_bytes_def)
qed

lemma utf8_roundtrip: "utf8_encode s = Inr bs \<Longrightarrow> utf8_decode_replace bs = s"
  by (auto simp: utf8_encode_def utf8_decode_replace_def utf8_dec_concat split: if_splits)


subsection \<open>The vocabulary after construction\<close>

lemma utf8_encode_Inr: "utf8_encode s = Inr bs \<longleftrightarrow> list_all encodable s \<and> bs = utf8_bytes s"
  by (auto simp: utf8_encode_def)

lemma dict_set_fresh: "k \<notin> set (map fst d) \<Longrightarrow> dict_set d k v = d @ [(k, v)]"
  by (induction d) auto

lemma dense_ids_fresh: "dense_ids d \<Longrightarrow> int (length d) \<notin> set (map fst d)"
  by (auto simp: dense_ids_def)

lemma dense_ids_snoc: "dense_ids d \<Longrightarrow> dense_ids (d @ [(int (length d), b)])"
  by (auto simp: dense_ids_def)

lemma add_special_tokens_dense:
  "add_special_tokens d sts = Inr d' \<Longrightarrow> dense_ids d \<Longrightarrow>
   dense_ids d' \<and> set (map snd d) \<subseteq> set (map snd d') \<and>
   (\<forall>S\<in>set sts. list_all encodable S \<and> utf8_bytes S \<in> set (map snd d'))"
proof (induction sts arbitrary: d)
  case Nil
  then show ?case by simp
next
  case (Cons S sts)
  from Cons.prems(1) have enc: "list_all encodable S"
    by (auto simp: utf8_encode_def split: if_splits sum.splits)
  then have e: "utf8_encode S = Inr (utf8_bytes S)"
    by (simp add: utf8_encode_Inr)
  let ?d1 = "if utf8_bytes S \<notin> set (map snd d)
             then dict_set d (int (length d)) (utf8_bytes S) else d"
  from Cons.prems(1) e have r: "add_special_tokens ?d1 sts = Inr d'" by simp
  have d1: "dense_ids ?d1" "set (map snd d) \<subseteq> set (map snd ?d1)"
    "utf8_bytes S \<in> set (map snd ?d1)"
    using dense_ids_snoc [OF Cons.prems(2), of "utf8_bytes S"]
      dict_set_fresh [OF dense_ids_fresh [OF Cons.prems(2)], of "utf8_bytes S"] Cons.prems(2)
    by auto
  from Cons.IH [OF r d1(1)] d1 enc show ?case by auto
qed

lemma init_special_tokens:
  assumes "init d ms sts = Inr T" "dense_ids d"
  shows "dense_ids (vocab T) \<and> set (map snd d) \<subseteq> set (map snd (vocab T)) \<and>
         (\<forall>S\<in>set sts. list_all encodable S \<and> utf8_bytes S \<in> set (map snd (vocab T)))"
proof (cases "sts = []")
  case True
  with assms show ?thesis by (auto simp: init_def finish_init_def)
next
  case False
  with assms(1) obtain d' where d': "add_special_tokens d sts = Inr d'" "vocab T = d'"
    by (auto simp: init_def finish_init_def split: sum.splits)
  from add_special_tokens_dense [OF d'(1) assms(2)] d'(2) show ?thesis by simp
qed

subsection \<open>Ids and byte strings are looked up consistently\<close>

lemma lookup_roundtrip:
  "distinct (map fst d) \<Longrightarrow> \<forall>u\<in>set units. u \<in> set (map snd d) \<Longrightarrow>
   \<exists>ids. lookup_ids (build_vocab_to_id d) units = Inr ids \<and> lookup_bytes d ids = Inr units"
proof (induction units)
  case Nil
  then show ?case by simp
next
  case (Cons u units)
  then obtain ids where ids: "lookup_ids (build_vocab_to_id d) units = Inr ids"
    "lookup_bytes d ids = Inr units" by auto
  from Cons.prems(2) obtain k where k: "build_vocab_to_id d u = Some k"
    using build_vocab_to_id_None [of d u] by auto
  then have "(k, u) \<in> set d" by (rule build_vocab_to_id_Some)
  with Cons.prems(1) have "dict_get d k = Some u"
    by (simp add: dict_get_def)
  with ids k show ?case by simp
qed

lemma lookup_bytes_append:
  "lookup_bytes d xs = Inr a \<Longrightarrow> lookup_bytes d ys = Inr b \<Longrightarrow>
   lookup_bytes d (xs @ ys) = Inr (a @ b)"
  by (induction xs arbitrary: a) (auto split: option.splits sum.splits)

subsection \<open>What the merge loop keeps\<close>

lemma greedy_replace_concat: "concat (greedy_replace bp xs) = concat xs"
  by (induction bp xs rule: greedy_replace.induct) auto

lemma greedy_replace_units:
  "u \<in> set (greedy_replace bp xs) \<Longrightarrow> u \<in> set xs \<or> u = fst bp @ snd bp"
  by (induction bp xs rule: greedy_replace.induct) (auto split: if_splits)

lemma merge_loop_concat: "concat (merge_loop ranks tokens) = concat tokens"
proof (induction ranks tokens rule: merge_loop.induct)
  case (1 ranks tokens)
  show ?case
  proof (cases "best_pair ranks tokens")
    case None
    then show ?thesis by (subst merge_loop.simps) simp
  next
    case (Some bp)
    with "1.IH" [OF Some] show ?thesis
      by (subst merge_loop.simps) (simp add: merge_round_greedy greedy_replace_concat)
  qed
qed

lemma merge_loop_units:
  "u \<in> set (merge_loop ranks tokens) \<Longrightarrow>
   u \<in> set tokens \<or> (\<exists>l r. ranks (l, r) \<noteq> None \<and> u = l @ r)"
proof (induction ranks tokens rule: merge_loop.induct)
  case (1 ranks tokens)
  show ?case
  proof (cases "best_pair ranks tokens")
    case None
    with "1.prems" show ?thesis by (subst (asm) merge_loop.simps) simp
  next
    case (Some bp)
    with "1.prems" have "u \<in> set (merge_loop ranks (merge_round bp tokens))"
      by (subst (asm) merge_loop.simps) simp
    from "1.IH" [OF Some this] have
      "u \<in> set (greedy_replace bp tokens) \<or> (\<exists>l r. ranks (l, r) \<noteq> None \<and> u = l @ r)"
      by (simp add: merge_round_greedy)
    moreover have "ranks bp \<noteq> None"
      using best_pair_candidate [OF Some] by (simp add: merge_candidates_def)
    then have "ranks (fst bp, snd bp) \<noteq> None" by simp
    ultimately show ?thesis
      using greedy_replace_units [of u bp tokens] by blast
  qed
qed

lemma merge_loop_length_le: "length (merge_loop ranks tokens) \<le> length tokens"
proof (induction ranks tokens rule: merge_loop.induct)
  case (1 ranks tokens)
  show ?case
  proof (cases "best_pair ranks tokens")
    case None
    then show ?thesis by (subst merge_loop.simps) simp
  next
    case (Some bp)
    with "1.IH" [OF Some] merge_round_shrinks [OF Some] show ?thesis
      by (subst merge_loop.simps) simp
  qed
qed



subsection \<open>Splitting and pretokenizing keep the bytes of the text\<close>

lemma item_bytes_Inr: "item_bytes (Inr word) = concat word"
  by (simp add: item_bytes_def)

lemma re_split_from_concat: "concat (re_split_from alts b chunk t) = chunk @ t"
proof (induction alts b chunk t rule: re_split_from.induct)
  case (1 alts b chunk t)
  show ?case
  proof (cases "match_at alts b t")
    case None
    show ?thesis
    proof (cases t)
      case Nil
      with None show ?thesis by (subst re_split_from.simps) simp
    next
      case (Cons c rest)
      with None "1.IH"(1) [OF None Cons] show ?thesis
        by (subst re_split_from.simps) simp
    qed
  next
    case (Some m)
    then have "prefix m t" by (simp add: match_at_Some)
    then have "m @ drop (length m) t = t"
      by (metis append_eq_conv_conj prefixE)
    with "1.IH"(2) [OF Some] Some show ?thesis
      by (subst re_split_from.simps) simp
  qed
qed

lemma re_split_concat: "concat (re_split alts t) = t"
  by (simp add: re_split_def re_split_from_concat)

lemma utf8_bytes_append: "utf8_bytes (a @ b) = utf8_bytes a @ utf8_bytes b"
  by (simp add: utf8_bytes_def)

lemma utf8_bytes_concat: "utf8_bytes (concat xs) = concat (map utf8_bytes xs)"
  by (induction xs) (simp_all add: utf8_bytes_append, simp add: utf8_bytes_def)

lemma concat_byte_units: "concat (byte_units bs) = bs"
  by (induction bs) (simp_all add: byte_units_def)

lemma merge_loop_single: "merge_loop ranks [x] = [x]"
  by (subst merge_loop.simps) (simp add: best_pair_def merge_candidates_def get_pairs_single)


lemma merge_word_roundtrip:
  assumes T: "init d ms sts = Inr T"
    and dist: "distinct (map fst (vocab T))"
    and rules: "\<forall>(l, r)\<in>set ms. l @ r \<in> set (map snd (vocab T))"
    and word: "\<forall>u\<in>set word. u \<in> set (map snd (vocab T))"
  shows "\<exists>ids. merge_word T word = Inr ids \<and>
           lookup_bytes (vocab T) ids = Inr (merge_loop (merge_ranks T) word)"
proof -
  from init_tables [OF T] have t: "merge_ranks T = build_merge_ranks ms"
    "vocab_to_id T = build_vocab_to_id (vocab T)" by simp_all
  have "u \<in> set (map snd (vocab T))" if "u \<in> set (merge_loop (merge_ranks T) word)" for u
  proof -
    from merge_loop_units [OF that] consider "u \<in> set word"
      | l r where "merge_ranks T (l, r) \<noteq> None" "u = l @ r" by blast
    then show ?thesis
    proof cases
      case 1
      with word show ?thesis by blast
    next
      case 2
      then have "(l, r) \<in> set ms"
        using build_merge_ranks_None [of ms "(l, r)"] by (simp add: t)
      with rules 2 show ?thesis by blast
    qed
  qed
  then have "\<forall>u\<in>set (merge_loop (merge_ranks T) word). u \<in> set (map snd (vocab T))"
    by blast
  from lookup_roundtrip [OF dist this] show ?thesis
    by (simp add: merge_word_def t)
qed

lemma merge_words_roundtrip:
  assumes T: "init d ms sts = Inr T"
    and dist: "distinct (map fst (vocab T))"
    and rules: "\<forall>(l, r)\<in>set ms. l @ r \<in> set (map snd (vocab T))"
    and items: "\<forall>it\<in>set items. \<exists>word. it = Inr word \<and> (\<forall>u\<in>set word. u \<in> set (map snd (vocab T)))"
  shows "\<exists>ids bss. merge_words T items = Inr ids \<and> lookup_bytes (vocab T) ids = Inr bss \<and>
           concat bss = concat (map item_bytes items)"
  using items
proof (induction items)
  case Nil
  show ?case by simp
next
  case (Cons it items)
  then obtain word where w: "it = Inr word" "\<forall>u\<in>set word. u \<in> set (map snd (vocab T))"
    by auto
  from merge_word_roundtrip [OF T dist rules w(2)] obtain ids where
    ids: "merge_word T word = Inr ids"
      "lookup_bytes (vocab T) ids = Inr (merge_loop (merge_ranks T) word)"
    by blast
  from Cons obtain ids' bss where
    r: "merge_words T items = Inr ids'" "lookup_bytes (vocab T) ids' = Inr bss"
      "concat bss = concat (map item_bytes items)"
    by auto
  from lookup_bytes_append [OF ids(2) r(2)] ids(1) r(1) r(3) w(1) show ?case
    by (simp add: item_bytes_Inr merge_loop_concat)
qed

lemma pretokenize_chunk_items:
  assumes enc: "list_all encodable chunk"
    and cover: "concat (finditer chunk) = chunk"
    and bytes: "\<forall>b. [b] \<in> V"
    and special: "chunk \<in> set (special_tokens T) \<longrightarrow> utf8_bytes chunk \<in> V"
  shows "(\<forall>it\<in>set (pretokenize_chunk finditer T chunk).
            \<exists>word. it = Inr word \<and> (\<forall>u\<in>set word. u \<in> V)) \<and>
         concat (map item_bytes (pretokenize_chunk finditer T chunk)) = utf8_bytes chunk"
proof (cases "chunk \<in> set (special_tokens T)")
  case True
  with enc special show ?thesis
    by (simp add: pretokenize_chunk_def utf8_encode_def item_bytes_Inr)
next
  case False
  have w: "list_all encodable word" if "word \<in> set (finditer chunk)" for word
  proof -
    from that have "set word \<subseteq> set (concat (finditer chunk))" by auto
    with enc cover show ?thesis by (auto simp: list_all_iff)
  qed
  have it: "map_sum id byte_units (utf8_encode word) = Inr (byte_units (utf8_bytes word))"
    if "word \<in> set (finditer chunk)" for word
    using w [OF that] by (simp add: utf8_encode_def)
  have m: "map (\<lambda>word. map_sum id byte_units (utf8_encode word)) (finditer chunk) =
           map (\<lambda>word. Inr (byte_units (utf8_bytes word))) (finditer chunk)"
    using it by simp
  have "concat (map item_bytes (pretokenize_chunk finditer T chunk)) =
        concat (map utf8_bytes (finditer chunk))"
    using False by (simp add: pretokenize_chunk_def m comp_def item_bytes_Inr concat_byte_units)
  also have "\<dots> = utf8_bytes chunk"
    using cover utf8_bytes_concat [of "finditer chunk"] by simp
  finally have c: "concat (map item_bytes (pretokenize_chunk finditer T chunk)) = utf8_bytes chunk" .
  have "\<forall>it\<in>set (pretokenize_chunk finditer T chunk). \<exists>word. it = Inr word \<and> (\<forall>u\<in>set word. u \<in> V)"
    using False bytes by (auto simp: pretokenize_chunk_def m byte_units_def)
  with c show ?thesis by blast
qed

lemma pretokenize_chunks_items:
  assumes enc: "list_all encodable (concat chunks)"
    and cover: "\<forall>s. concat (finditer s) = s"
    and bytes: "\<forall>b. [b] \<in> V"
    and special: "\<forall>S\<in>set (special_tokens T). utf8_bytes S \<in> V"
  shows "(\<forall>it\<in>set (concat (map (pretokenize_chunk finditer T) chunks)).
            \<exists>word. it = Inr word \<and> (\<forall>u\<in>set word. u \<in> V)) \<and>
         concat (map item_bytes (concat (map (pretokenize_chunk finditer T) chunks))) =
           utf8_bytes (concat chunks)"
  using enc
proof (induction chunks)
  case Nil
  show ?case by (simp add: utf8_bytes_def)
next
  case (Cons chunk chunks)
  from Cons.prems have e: "list_all encodable chunk" "list_all encodable (concat chunks)"
    by simp_all
  from special have s: "chunk \<in> set (special_tokens T) \<longrightarrow> utf8_bytes chunk \<in> V" by blast
  from cover have c: "concat (finditer chunk) = chunk" by blast
  from pretokenize_chunk_items [of chunk finditer V T] e(1) c bytes s
  have "(\<forall>it\<in>set (pretokenize_chunk finditer T chunk).
            \<exists>word. it = Inr word \<and> (\<forall>u\<in>set word. u \<in> V)) \<and>
         concat (map item_bytes (pretokenize_chunk finditer T chunk)) = utf8_bytes chunk"
    by blast
  with Cons.IH [OF e(2)] show ?case
    by (auto simp: utf8_bytes_append)
qed




subsection \<open>Round trip\<close>

lemma words_from_concat: "concat (words_from cur s) = cur @ s"
  by (induction s arbitrary: cur) auto

lemma words_concat: "concat (words s) = s"
  by (simp add: words_def words_from_concat)

lemma of_char_nonneg: "(0::int) \<le> of_char b"
proof -
  have "(of_char b :: int) = int (of_char b)" by (simp add: of_nat_of_char)
  then show ?thesis by simp
qed

lemma of_char_le_255: "(of_char b :: int) \<le> 255"
proof -
  have "(of_char b :: int) = int (of_char b)" by (simp add: of_nat_of_char)
  moreover have "(of_char b :: nat) < 256" by simp
  ultimately show ?thesis by linarith
qed

lemma byte_vocab_length: "length byte_vocab = 256"
  by (simp add: byte_vocab_def)

lemma byte_vocab_dense: "dense_ids byte_vocab"
proof -
  have "set (map int [0..<256]) = {0..255}"
    by (auto simp: image_int_atLeastLessThan)
  then show ?thesis
    by (simp add: dense_ids_def byte_vocab_def comp_def)
qed

lemma map_of_graph:
  "map_of (map (\<lambda>n. (n, f n)) xs) i = (if i \<in> set xs then Some (f i) else None)"
  by (induction xs) auto

lemma byte_vocab_get:
  "dict_get byte_vocab i = (if 0 \<le> i \<and> i \<le> 255 then Some [char_of i] else None)"
  by (simp add: dict_get_def byte_vocab_def map_of_graph)

lemma byte_vocab_bytes: "[b] \<in> set (map snd byte_vocab)"
proof -
  have "(of_char b :: int) \<in> set [0..255]"
    using of_char_nonneg [of b] of_char_le_255 [of b] by simp
  moreover have "[b] = [char_of (of_char b :: int)]" by simp
  ultimately show ?thesis
    unfolding byte_vocab_def by (auto simp: comp_def image_iff simp del: char_of_char)
qed

text \<open>
  Claim C1.  For a tokenizer constructed from a vocabulary with ids \<open>0..N-1\<close>, whose
  vocabulary holds every single byte and the result of every merge rule, and for
  every text \<open>t\<close> of encodable code points, \<open>decode(encode(t)) = t\<close>.  The matches of
  the pretokenization pattern are assumed to cover every chunk (as those of the GPT-2
  pattern do).
\<close>

theorem encode_decode_roundtrip:
  assumes T: "init d ms sts = Inr T"
    and dense: "dense_ids d"
    and bytes: "\<forall>b. [b] \<in> set (map snd (vocab T))"
    and rules: "\<forall>(l, r)\<in>set ms. l @ r \<in> set (map snd (vocab T))"
    and cover: "\<forall>s. concat (finditer s) = s"
    and valid: "list_all encodable t"
  shows "bind_err (encode finditer T t) (decode T) = Inr t"
proof -
  from init_special_tokens [OF T dense] have
    dist: "distinct (map fst (vocab T))" and
    sp: "\<forall>S\<in>set sts. utf8_bytes S \<in> set (map snd (vocab T))"
    by (simp_all add: dense_ids_def)
  from init_tables [OF T] have st: "special_tokens T = sts" by simp
  let ?chunks = "case split_pattern T of Some alts \<Rightarrow> re_split alts t | None \<Rightarrow> [t]"
  have c: "concat ?chunks = t"
    by (simp add: re_split_concat split: option.splits)
  from sp st have sp': "\<forall>S\<in>set (special_tokens T). utf8_bytes S \<in> set (map snd (vocab T))"
    by simp
  from valid c have v: "list_all encodable (concat ?chunks)" by simp
  from pretokenize_chunks_items [OF v cover bytes sp'] c
  have items: "\<forall>it\<in>set (pretokenize finditer T t).
      \<exists>word. it = Inr word \<and> (\<forall>u\<in>set word. u \<in> set (map snd (vocab T)))"
    and b: "concat (map item_bytes (pretokenize finditer T t)) = utf8_bytes t"
    unfolding pretokenize_def by simp_all
  from merge_words_roundtrip [OF T dist rules items] b obtain ids bss where
    r: "encode finditer T t = Inr ids" "lookup_bytes (vocab T) ids = Inr bss"
      "concat bss = utf8_bytes t"
    unfolding encode_def by auto
  from valid have "utf8_decode_replace (utf8_bytes t) = t"
    by (simp add: utf8_decode_replace_def utf8_dec_concat)
  with r show ?thesis
    by (simp add: bind_err_def decode_def)
qed

theorem encode_decode_roundtrip_witness:
  "bind_err
     (init (byte_vocab @ [(256, ''ab''), (257, ''abc'')])
        [(''a'', ''b''), (''ab'', ''c'')] [str ''<|endoftext|>''])
     (\<lambda>T. bind_err (encode words T (str ''abc cab<|endoftext|>ab'' @ [233, 8364])) (decode T))
   = Inr (str ''abc cab<|endoftext|>ab'' @ [233, 8364])"
proof -
  let ?d = "byte_vocab @ [(256, ''ab''), (257, ''abc'')]"
  let ?ms = "[(''a'', ''b''), (''ab'', ''c'')]"
  let ?sts = "[str ''<|endoftext|>'']"
  let ?t = "str ''abc cab<|endoftext|>ab'' @ [233, 8364]"
  have dense: "dense_ids ?d"
    using dense_ids_snoc [OF dense_ids_snoc [OF byte_vocab_dense, of "''ab''"], of "''abc''"]
    by (simp add: byte_vocab_length)
  have enc: "list_all encodable (str ''<|endoftext|>'')"
    by (simp add: str_def encodable_def)
  obtain T where T: "init ?d ?ms ?sts = Inr T"
    using enc by (simp add: init_def utf8_encode_def)
  from init_special_tokens [OF T dense] have sub: "set (map snd ?d) \<subseteq> set (map snd (vocab T))"
    by blast
  have bytes: "\<forall>b. [b] \<in> set (map snd (vocab T))"
    using sub byte_vocab_bytes by auto
  have rules: "\<forall>(l, r)\<in>set ?ms. l @ r \<in> set (map snd (vocab T))"
    using sub by auto
  have cover: "\<forall>s. concat (words s) = s" by (simp add: words_concat)
  have valid: "list_all encodable ?t" by (simp add: str_def encodable_def)
  from encode_decode_roundtrip [OF T dense bytes rules cover valid] T
  show ?thesis by (simp add: bind_err_def)
qed




subsection \<open>Splitting on special tokens\<close>

text \<open>
  The split on some small patterns, as \<open>re.split\<close> returns it: \<open>(ab|a)\<close> on \<open>xabya\<close>,
  \<open>()\<close> on \<open>a\<close> and on the empty string, \<open>(ab|)\<close> on \<open>xaby\<close> and on \<open>abab\<close>.
\<close>

lemma re_split_examples:
  "re_split [str ''ab'', str ''a''] (str ''xabya'')
     = [str ''x'', str ''ab'', str ''y'', str ''a'', []]"
  "re_split [[]] (str ''a'') = [[], [], str ''a'', [], []]"
  "re_split [[]] [] = [[], [], []]"
  "re_split [str ''ab'', []] (str ''xaby'')
     = [[], [], str ''x'', str ''ab'', [], [], str ''y'', [], []]"
  "re_split [str ''ab'', []] (str ''abab'') = [[], str ''ab'', [], str ''ab'', [], [], []]"
  by code_simp+

lemma sorted_special_tokens_set: "set (sorted_special_tokens sts) = set sts"
  by (simp add: sorted_special_tokens_def)

lemma sorted_special_tokens_desc:
  "sorted_wrt (\<lambda>a b. length b \<le> length a) (sorted_special_tokens sts)"
proof -
  have "sorted (map (\<lambda>s. - int (length s)) (sorted_special_tokens sts))"
    unfolding sorted_special_tokens_def by (rule sorted_sort_key)
  then show ?thesis
    by (simp add: sorted_map sorted_wrt_iff_nth_less)
qed

lemma match_at_longest:
  "sorted_wrt (\<lambda>a b. length b \<le> length a) alts \<Longrightarrow> L \<in> set alts \<Longrightarrow> L \<noteq> [] \<Longrightarrow>
   prefix L t \<Longrightarrow> (\<forall>a\<in>set alts. length L < length a \<longrightarrow> \<not> prefix a t) \<Longrightarrow>
   match_at alts b t = Some L"
proof (induction alts)
  case Nil
  then show ?case by simp
next
  case (Cons a alts)
  show ?case
  proof (cases "prefix a t \<and> \<not> (b \<and> a = [])")
    case True
    have "a = L"
    proof (cases "L = a")
      case False
      with Cons.prems(2) have "L \<in> set alts" by simp
      with Cons.prems(1) have "length L \<le> length a" by simp
      moreover from Cons.prems(5) True have "\<not> length L < length a" by auto
      ultimately have "length a = length L" by simp
      moreover from True Cons.prems(4) have "prefix a L \<or> prefix L a"
        using prefix_same_cases by blast
      ultimately show ?thesis
        by (auto elim!: prefixE)
    qed simp
    with True show ?thesis by simp
  next
    case False
    with Cons.prems(3,4) have "a \<noteq> L" by auto
    with Cons.prems(2) have m: "L \<in> set alts" by simp
    from Cons.prems(1) have s: "sorted_wrt (\<lambda>a b. length b \<le> length a) alts" by simp
    from Cons.prems(5) have n: "\<forall>a\<in>set alts. length L < length a \<longrightarrow> \<not> prefix a t" by simp
    from Cons.IH [OF s m Cons.prems(3,4) n] False show ?thesis by auto
  qed
qed

lemma match_at_None: "[] \<notin> set alts \<Longrightarrow> match_at alts b t = None \<longleftrightarrow> \<not> special_at alts t"
  by (induction alts) (auto simp: special_at_def)

lemma re_split_from_no_match:
  "\<forall>i<length u. match_at alts False (drop i (u @ rest)) = None \<Longrightarrow> u \<noteq> [] \<Longrightarrow>
   re_split_from alts False chunk (u @ rest) = re_split_from alts False (chunk @ u) rest"
proof (induction u arbitrary: chunk)
  case Nil
  then show ?case by simp
next
  case (Cons c u)
  from Cons.prems(1) have h: "match_at alts False (c # u @ rest) = None"
    by (metis append_Cons drop0 length_greater_0_conv list.discI)
  then have one: "re_split_from alts False chunk ((c # u) @ rest) =
      re_split_from alts False (chunk @ [c]) (u @ rest)"
    by (subst re_split_from.simps) simp
  show ?case
  proof (cases "u = []")
    case True
    with one show ?thesis by simp
  next
    case False
    have "\<forall>i<length u. match_at alts False (drop i (u @ rest)) = None"
    proof (intro allI impI)
      fix i assume "i < length u"
      then have "Suc i < length (c # u)" by simp
      with Cons.prems(1) have "match_at alts False (drop (Suc i) ((c # u) @ rest)) = None" by blast
      then show "match_at alts False (drop i (u @ rest)) = None" by simp
    qed
    from Cons.IH [OF this False, of "chunk @ [c]"] one show ?thesis by simp
  qed
qed

lemma re_split_from_match:
  assumes "match_at alts b (S @ v) = Some S" "S \<noteq> []"
  shows "re_split_from alts b chunk (S @ v) = chunk # S # re_split_from alts False [] v"
  using assms by (subst re_split_from.simps) simp

lemma re_split_from_end:
  assumes "[] \<notin> set alts"
  shows "re_split_from alts b chunk [] = [chunk]"
proof -
  have "match_at alts b [] = None"
    using assms by (induction alts) auto
  then show ?thesis by (subst re_split_from.simps) simp
qed

lemma re_split_from_plain:
  assumes "[] \<notin> set alts" "\<forall>i<length s. match_at alts False (drop i s) = None"
  shows "re_split_from alts False chunk s = [chunk @ s]"
proof (cases "s = []")
  case True
  with assms(1) show ?thesis by (simp add: re_split_from_end)
next
  case False
  from assms(2) have "\<forall>i<length s. match_at alts False (drop i (s @ [])) = None" by simp
  from re_split_from_no_match [OF this False, of chunk] assms(1) show ?thesis
    by (simp add: re_split_from_end)
qed

lemma re_split_around:
  assumes "\<forall>i<length u. match_at alts False (drop i (u @ S @ v)) = None"
    and "match_at alts False (S @ v) = Some S" and "S \<noteq> []"
  shows "re_split alts (u @ S @ v) = u # S # re_split alts v"
proof (cases "u = []")
  case True
  with re_split_from_match [OF assms(2,3), of "[]"] show ?thesis
    by (simp add: re_split_def)
next
  case False
  from re_split_from_no_match [OF assms(1) False, of "[]"]
    re_split_from_match [OF assms(2,3), of u]
  show ?thesis by (simp add: re_split_def)
qed

lemma special_at_sorted: "special_at (sorted_special_tokens sts) t = special_at sts t"
  by (simp add: special_at_def sorted_special_tokens_set)

lemma special_before_iff:
  "special_before sts n t \<longleftrightarrow> (\<exists>i<n. special_at sts (drop i t))"
  by (auto simp: special_before_def list_ex_iff)

lemma special_at_append: "special_at sts t \<Longrightarrow> special_at sts (t @ r)"
  by (auto simp: special_at_def)

lemma re_split_plain:
  assumes "[] \<notin> set sts" "\<not> contains_special sts s"
  shows "re_split (sorted_special_tokens sts) s = [s]"
proof -
  from assms(1) have n: "[] \<notin> set (sorted_special_tokens sts)"
    by (simp add: sorted_special_tokens_set)
  from assms(2) have "\<forall>i<length s. match_at (sorted_special_tokens sts) False (drop i s) = None"
    by (simp add: contains_special_def special_before_iff match_at_None [OF n] special_at_sorted)
  from re_split_from_plain [OF n this, of "[]"] show ?thesis
    by (simp add: re_split_def)
qed




lemma special_token_id:
  assumes T: "init d ms sts = Inr T" and dense: "dense_ids d" and S: "S \<in> set sts"
  shows "\<exists>i. merge_word T [utf8_bytes S] = Inr [i] \<and>
             dict_get (vocab T) i = Some (utf8_bytes S) \<and>
             pretokenize_chunk finditer T S = [Inr [utf8_bytes S]]"
proof -
  from init_special_tokens [OF T dense] S have
    dist: "distinct (map fst (vocab T))" and
    enc: "list_all encodable S" and
    mem: "utf8_bytes S \<in> set (map snd (vocab T))"
    by (simp_all add: dense_ids_def)
  from init_tables [OF T] have t: "vocab_to_id T = build_vocab_to_id (vocab T)"
    "special_tokens T = sts" by simp_all
  from mem obtain i where i: "build_vocab_to_id (vocab T) (utf8_bytes S) = Some i"
    using build_vocab_to_id_None [of "vocab T" "utf8_bytes S"] by auto
  then have "(i, utf8_bytes S) \<in> set (vocab T)" by (rule build_vocab_to_id_Some)
  with dist have "dict_get (vocab T) i = Some (utf8_bytes S)"
    by (simp add: dict_get_def)
  moreover have "merge_word T [utf8_bytes S] = Inr [i]"
    by (simp add: merge_word_def merge_loop_single t i)
  moreover have "pretokenize_chunk finditer T S = [Inr [utf8_bytes S]]"
    using S enc by (simp add: pretokenize_chunk_def t utf8_encode_def)
  ultimately show ?thesis by blast
qed

lemma merge_words_append:
  "merge_words T (xs @ ys) =
     bind_err (merge_words T xs) (\<lambda>a. bind_err (merge_words T ys) (\<lambda>b. Inr (a @ b)))"
  by (induction xs) (auto simp: bind_err_def split: sum.splits)


lemma encode_around_special:
  assumes T: "init d ms sts = Inr T" and dense: "dense_ids d"
    and S: "S \<in> set sts" and nonempty: "[] \<notin> set sts"
    and left: "\<not> special_before sts (length u) (u @ S @ v)"
    and longest: "\<forall>a\<in>set sts. length S < length a \<longrightarrow> \<not> prefix a (S @ v)"
    and i: "merge_word T [utf8_bytes S] = Inr [i]"
  shows "encode finditer T (u @ S @ v) =
           bind_err (encode finditer T u)
             (\<lambda>a. bind_err (encode finditer T v) (\<lambda>c. Inr (a @ [i] @ c)))"
proof -
  let ?alts = "sorted_special_tokens sts"
  from S nonempty have S0: "S \<noteq> []" by auto
  from nonempty have n: "[] \<notin> set ?alts" by (simp add: sorted_special_tokens_set)
  from init_tables [OF T] S have t: "split_pattern T = Some ?alts" by auto
  have l: "\<forall>i<length u. match_at ?alts False (drop i (u @ S @ v)) = None"
    using left by (simp add: special_before_iff match_at_None [OF n] special_at_sorted)
  have m: "match_at ?alts False (S @ v) = Some S"
    using match_at_longest [OF sorted_special_tokens_desc, of S sts "S @ v"] S S0 longest
    by (simp add: sorted_special_tokens_set)
  have c3: "re_split ?alts (u @ S @ v) = u # S # re_split ?alts v"
    by (rule re_split_around [OF l m S0])
  have "\<not> contains_special sts u"
  proof
    assume "contains_special sts u"
    then obtain i where i: "i < length u" "special_at sts (drop i u)"
      by (auto simp: contains_special_def special_before_iff)
    from special_at_append [OF i(2), of "S @ v"] i(1) have "special_at sts (drop i (u @ S @ v))"
      by simp
    with i(1) left show False by (auto simp: special_before_iff)
  qed
  with nonempty have cu: "re_split ?alts u = [u]" by (rule re_split_plain)
  from special_token_id [OF T dense S, of finditer]
  have pc: "pretokenize_chunk finditer T S = [Inr [utf8_bytes S]]" by blast
  have eu: "encode finditer T u = merge_words T (pretokenize_chunk finditer T u)"
    by (simp add: encode_def pretokenize_def t cu)
  have ev: "encode finditer T v = merge_words T (pretokenize finditer T v)"
    by (simp add: encode_def)
  have pv: "pretokenize finditer T v = concat (map (pretokenize_chunk finditer T) (re_split ?alts v))"
    by (simp add: pretokenize_def t)
  have "encode finditer T (u @ S @ v) =
        merge_words T (pretokenize_chunk finditer T u @
          (Inr [utf8_bytes S] # pretokenize finditer T v))"
    by (simp add: encode_def pretokenize_def t c3 pc)
  also have "\<dots> = bind_err (encode finditer T u)
               (\<lambda>a. bind_err (encode finditer T v) (\<lambda>c. Inr (a @ [i] @ c)))"
    unfolding merge_words_append eu ev
    by (auto simp: bind_err_def i split: sum.splits)
  finally show ?thesis .
qed




subsection \<open>A special token inside a text\<close>

text \<open>
  Claim C4, as amended.  For a configured special token \<open>S\<close> and strings \<open>u\<close>, \<open>v\<close>
  such that no special-token literal starts inside \<open>u\<close> in \<open>u + S + v\<close>, no longer
  special token is a prefix of \<open>S + v\<close>, and \<open>v\<close> contains no special-token literal:
  \<open>encode(u + S + v) = encode(u) + [id(S)] + encode(v)\<close>, where \<open>id(S)\<close> is one
  vocabulary id of the bytes of \<open>S\<close>.  (As stated, with only \<open>u\<close> and \<open>v\<close> free
  of special-token literals, the claim fails where a special token starts in \<open>u\<close>
  and ends in \<open>S\<close>, or where \<open>S\<close> with the beginning of \<open>v\<close> is a longer special
  token; the counterexample evaluates both.)
\<close>

theorem special_token_single_id:
  assumes T: "init d ms sts = Inr T" and dense: "dense_ids d"
    and S: "S \<in> set sts" and nonempty: "[] \<notin> set sts"
    and left: "\<not> special_before sts (length u) (u @ S @ v)"
    and longest: "\<forall>a\<in>set sts. length S < length a \<longrightarrow> \<not> prefix a (S @ v)"
    and right: "\<not> contains_special sts v"
  shows "\<exists>i. dict_get (vocab T) i = Some (utf8_bytes S) \<and>
           encode finditer T (u @ S @ v) =
             bind_err (encode finditer T u)
               (\<lambda>a. bind_err (encode finditer T v) (\<lambda>c. Inr (a @ [i] @ c)))"
proof -
  from special_token_id [OF T dense S, of finditer] obtain i where
    i: "merge_word T [utf8_bytes S] = Inr [i]" "dict_get (vocab T) i = Some (utf8_bytes S)"
    by blast
  from encode_around_special [OF T dense S nonempty left longest i(1)] i(2)
  show ?thesis by blast
qed

theorem special_token_single_id_witness:
  "str ''<|endoftext|>'' \<in> set eot_tokens \<and>
   \<not> special_before eot_tokens (length (str ''a<''))
       (str ''a<'' @ str ''<|endoftext|>'' @ str ''|pad'') \<and>
   \<not> contains_special eot_tokens (str ''|pad'') \<and>
   bind_err (init pad_vocab [] eot_tokens)
     (\<lambda>T. Inr (dict_get (vocab T) 6)) = Inr (Some (utf8_bytes (str ''<|endoftext|>''))) \<and>
   bind_err (init pad_vocab [] eot_tokens)
     (\<lambda>T. encode words T (str ''a<'' @ str ''<|endoftext|>'' @ str ''|pad''))
     = Inr ([4, 0] @ [6] @ [1, 3, 4, 5]) \<and>
   bind_err (init pad_vocab [] eot_tokens) (\<lambda>T. encode words T (str ''a<'')) = Inr [4, 0] \<and>
   bind_err (init pad_vocab [] eot_tokens) (\<lambda>T. encode words T (str ''|pad''))
     = Inr [1, 3, 4, 5]"
proof -
  let ?u = "str ''a<''" and ?S = "str ''<|endoftext|>''" and ?v = "str ''|pad''"
  have S: "?S \<in> set eot_tokens" by (simp add: eot_tokens_def)
  have dense: "dense_ids pad_vocab" by code_simp
  have nonempty: "[] \<notin> set eot_tokens" by (simp add: eot_tokens_def str_def)
  have left: "\<not> special_before eot_tokens (length ?u) (?u @ ?S @ ?v)" by code_simp
  have longest: "\<forall>a\<in>set eot_tokens. length ?S < length a \<longrightarrow> \<not> prefix a (?S @ ?v)"
    by code_simp
  have right: "\<not> contains_special eot_tokens ?v" by code_simp
  have eu: "bind_err (init pad_vocab [] eot_tokens) (\<lambda>T. encode words T ?u) = Inr [4, 0]"
    by code_simp
  have ev: "bind_err (init pad_vocab [] eot_tokens) (\<lambda>T. encode words T ?v) = Inr [1, 3, 4, 5]"
    by code_simp
  have euv: "bind_err (init pad_vocab [] eot_tokens) (\<lambda>T. encode words T (?u @ ?S @ ?v))
      = Inr [4, 0, 6, 1, 3, 4, 5]"
    by code_simp
  from eu obtain T where T: "init pad_vocab [] eot_tokens = Inr T"
    by (cases "init pad_vocab [] eot_tokens") (simp_all add: bind_err_def)
  from special_token_single_id [where finditer = words, OF T dense S nonempty left longest right]
  obtain i where i: "dict_get (vocab T) i = Some (utf8_bytes ?S)"
    "encode words T (?u @ ?S @ ?v) =
       bind_err (encode words T ?u) (\<lambda>a. bind_err (encode words T ?v) (\<lambda>c. Inr (a @ [i] @ c)))"
    by blast
  from eu ev T have e: "encode words T ?u = Inr [4, 0]" "encode words T ?v = Inr [1, 3, 4, 5]"
    by (simp_all add: bind_err_def)
  from euv T i(2) e have "i = 6" by (simp add: bind_err_def)
  with i(1) T S left right eu ev euv show ?thesis by (simp add: bind_err_def)
qed

theorem special_token_single_id_counterexample:
  "str ''<|endoftext|>'' \<in> set eot_tokens \<and>
   \<not> contains_special eot_tokens [] \<and>
   \<not> contains_special eot_tokens (str ''<|pad|>'') \<and>
   bind_err (init pad_vocab [] eot_tokens)
     (\<lambda>T. encode words T ([] @ str ''<|endoftext|>'' @ str ''<|pad|>'')) = Inr [7] \<and>
   bind_err (init pad_vocab [] eot_tokens) (\<lambda>T. encode words T []) = Inr [] \<and>
   bind_err (init pad_vocab [] eot_tokens)
     (\<lambda>T. merge_word T [utf8_bytes (str ''<|endoftext|>'')]) = Inr [6] \<and>
   bind_err (init pad_vocab [] eot_tokens)
     (\<lambda>T. encode words T (str ''<|pad|>'')) = Inr [0, 1, 3, 4, 5, 1, 2] \<and>
   str ''aba'' \<in> set [str ''aba''] \<and>
   \<not> contains_special [str ''aba''] (str ''ab'') \<and>
   \<not> contains_special [str ''aba''] [] \<and>
   bind_err (init ab_vocab [] [str ''aba''])
     (\<lambda>T. encode words T (str ''ab'' @ str ''aba'' @ [])) = Inr [2, 1, 0] \<and>
   bind_err (init ab_vocab [] [str ''aba'']) (\<lambda>T. encode words T (str ''ab'')) = Inr [0, 1] \<and>
   bind_err (init ab_vocab [] [str ''aba''])
     (\<lambda>T. merge_word T [utf8_bytes (str ''aba'')]) = Inr [2] \<and>
   bind_err (init ab_vocab [] [str ''aba'']) (\<lambda>T. encode words T []) = Inr []"
  by code_simp



subsection \<open>The output is no longer than the input's bytes\<close>

lemma lookup_ids_length: "lookup_ids m units = Inr ids \<Longrightarrow> length ids = length units"
  by (induction units arbitrary: ids) (auto split: option.splits sum.splits)

lemma merge_word_length: "merge_word T word = Inr ids \<Longrightarrow> length ids \<le> length word"
  using merge_loop_length_le [of "merge_ranks T" word]
  by (auto simp: merge_word_def dest: lookup_ids_length)

lemma merge_words_length:
  "merge_words T items = Inr ids \<Longrightarrow> length ids \<le> sum_list (map item_len items)"
proof (induction items arbitrary: ids)
  case Nil
  then show ?case by simp
next
  case (Cons it items)
  from Cons.prems obtain word a b where
    w: "it = Inr word" "merge_word T word = Inr a" "merge_words T items = Inr b" "ids = a @ b"
    by (auto split: sum.splits)
  from Cons.IH [OF w(3)] merge_word_length [OF w(2)] w(1,4) show ?case
    by (simp add: item_len_def)
qed

lemma utf8_char_nonempty: "utf8_char c \<noteq> []"
  by (simp add: utf8_char_def)

lemma utf8_bytes_Cons: "utf8_bytes (c # s) = utf8_char c @ utf8_bytes s"
  by (simp add: utf8_bytes_def)

lemma utf8_bytes_nonempty: "s \<noteq> [] \<Longrightarrow> 1 \<le> length (utf8_bytes s)"
  using utf8_char_nonempty by (cases s) (auto simp: utf8_bytes_Cons Suc_le_eq)

lemma utf8_bytes_subseq:
  "subseq xs ys \<Longrightarrow> length (utf8_bytes xs) \<le> length (utf8_bytes ys)"
  by (induction rule: list_emb.induct) (auto simp: utf8_bytes_Cons utf8_bytes_def)

lemma length_byte_units: "length (byte_units bs) = length bs"
  by (simp add: byte_units_def)

lemma word_items_length:
  "sum_list (map (\<lambda>word. item_len (map_sum id byte_units (utf8_encode word))) ws)
     \<le> length (utf8_bytes (concat ws))"
proof (induction ws)
  case Nil
  show ?case by simp
next
  case (Cons w ws)
  have "item_len (map_sum id byte_units (utf8_encode w)) \<le> length (utf8_bytes w)"
    by (simp add: utf8_encode_def item_len_def length_byte_units)
  with Cons show ?case by (simp add: utf8_bytes_append id_def)
qed

lemma pretokenize_chunk_length:
  assumes "[] \<notin> set (special_tokens T)" "subseq (concat (finditer chunk)) chunk"
  shows "sum_list (map item_len (pretokenize_chunk finditer T chunk)) \<le> length (utf8_bytes chunk)"
proof (cases "chunk \<in> set (special_tokens T)")
  case True
  with assms(1) have "chunk \<noteq> []" by auto
  from utf8_bytes_nonempty [OF this] True show ?thesis
    by (simp add: pretokenize_chunk_def utf8_encode_def item_len_def)
next
  case False
  have "sum_list (map item_len (pretokenize_chunk finditer T chunk)) \<le>
        length (utf8_bytes (concat (finditer chunk)))"
    using False word_items_length [of "finditer chunk"]
    by (simp add: pretokenize_chunk_def comp_def)
  also have "\<dots> \<le> length (utf8_bytes chunk)"
    by (rule utf8_bytes_subseq [OF assms(2)])
  finally show ?thesis .
qed

lemma pretokenize_chunks_length:
  assumes "[] \<notin> set (special_tokens T)" "\<forall>s. subseq (concat (finditer s)) s"
  shows "sum_list (map item_len (concat (map (pretokenize_chunk finditer T) chunks)))
           \<le> length (utf8_bytes (concat chunks))"
proof (induction chunks)
  case Nil
  show ?case by simp
next
  case (Cons chunk chunks)
  from assms(2) have "subseq (concat (finditer chunk)) chunk" by blast
  from pretokenize_chunk_length [where finditer = finditer, OF assms(1) this] Cons show ?case
    by (simp add: utf8_bytes_append)
qed

text \<open>
  Claim C10, as amended.  For a tokenizer with no empty special token: when
  \<open>encode(t)\<close> returns, the number of ids is at most the number of bytes of the UTF-8
  encoding of \<open>t\<close>: every special token yields one unit and has at least one byte,
  every other pretoken starts as one unit per byte, and merging never adds units.
  The matches of the pretokenization pattern are assumed to be taken from the chunk in
  order without overlap.  (With the empty string as a special token the claim fails:
  every empty chunk of the split is emitted as the id of \<open>b''\<close>, so \<open>encode('a')\<close> has
  five ids for one byte; the counterexample evaluates it.)
\<close>

theorem encode_length_bound:
  assumes T: "init d ms sts = Inr T"
    and nonempty: "[] \<notin> set sts"
    and matches: "\<forall>s. subseq (concat (finditer s)) s"
    and enc: "encode finditer T t = Inr ids"
  shows "length ids \<le> length (utf8_bytes t) \<and>
         (\<forall>bs. utf8_encode t = Inr bs \<longrightarrow> length ids \<le> length bs)"
proof -
  from init_tables [OF T] nonempty have ne: "[] \<notin> set (special_tokens T)" by simp
  let ?chunks = "case split_pattern T of Some alts \<Rightarrow> re_split alts t | None \<Rightarrow> [t]"
  have c: "concat ?chunks = t"
    by (simp add: re_split_concat split: option.splits)
  from enc have "length ids \<le> sum_list (map item_len (pretokenize finditer T t))"
    unfolding encode_def by (rule merge_words_length)
  also have "\<dots> \<le> length (utf8_bytes (concat ?chunks))"
    unfolding pretokenize_def by (rule pretokenize_chunks_length [OF ne matches])
  finally have "length ids \<le> length (utf8_bytes t)" by (simp only: c)
  then show ?thesis by (auto simp: utf8_encode_Inr)
qed

theorem encode_length_bound_witness:
  "bind_err (init pad_vocab [] eot_tokens)
     (\<lambda>T. encode words T (str ''a<<|endoftext|>|pad'')) = Inr [4, 0, 6, 1, 3, 4, 5] \<and>
   utf8_encode (str ''a<<|endoftext|>|pad'') = Inr ''a<<|endoftext|>|pad'' \<and>
   length [4, 0, 6, 1, 3, 4, 5 :: int] \<le> length ''a<<|endoftext|>|pad''"
proof -
  let ?t = "str ''a<<|endoftext|>|pad''"
  have e: "bind_err (init pad_vocab [] eot_tokens) (\<lambda>T. encode words T ?t)
      = Inr [4, 0, 6, 1, 3, 4, 5]"
    by code_simp
  have u: "utf8_encode ?t = Inr ''a<<|endoftext|>|pad''" by code_simp
  have nonempty: "[] \<notin> set eot_tokens" by (simp add: eot_tokens_def str_def)
  have matches: "\<forall>s. subseq (concat (words s)) s" by (simp add: words_concat)
  from e obtain T where T: "init pad_vocab [] eot_tokens = Inr T"
    by (cases "init pad_vocab [] eot_tokens") (simp_all add: bind_err_def)
  with e have enc: "encode words T ?t = Inr [4, 0, 6, 1, 3, 4, 5]"
    by (simp add: bind_err_def)
  from encode_length_bound [OF T nonempty matches enc] u
  have "length [4, 0, 6, 1, 3, 4, 5 :: int] \<le> length ''a<<|endoftext|>|pad''"
    by blast
  with e u show ?thesis by blast
qed

theorem encode_length_bound_counterexample:
  "bind_err (init [(0, ''a'')] [] [[]]) (\<lambda>T. encode words T (str ''a''))
     = Inr [1, 1, 0, 1, 1] \<and>
   utf8_encode (str ''a'') = Inr ''a'' \<and>
   \<not> length [1, 1, 0, 1, 1 :: int] \<le> length ''a''"
  by code_simp



subsection \<open>UTF-8: bytes that decode without a replacement are an encoding\<close>

lemma digits2:
  assumes "0 \<le> l" "l < 64"
  shows "(h * 64 + l) div 64 = (h::int)" "(h * 64 + l) mod 64 = l"
  using assms by (simp_all add: div_pos_pos_trivial)

lemma digits3:
  assumes "0 \<le> m" "m < 64" "0 \<le> l" "l < 64"
  shows "(h * 4096 + m * 64 + l) div 4096 = (h::int)"
    "(h * 4096 + m * 64 + l) div 64 mod 64 = m"
    "(h * 4096 + m * 64 + l) mod 64 = l"
proof -
  have r: "0 \<le> m * 64 + l" "m * 64 + l < 4096" using assms by simp_all
  have "(h * 4096 + (m * 64 + l)) div 4096 = h"
    using r by (simp add: div_pos_pos_trivial)
  then show "(h * 4096 + m * 64 + l) div 4096 = h" by (simp add: add.assoc)
  have e: "h * 4096 + m * 64 + l = (h * 64 + m) * 64 + l" by simp
  have d: "(h * 4096 + m * 64 + l) div 64 = h * 64 + m"
    by (simp only: e digits2(1) [OF assms(3,4)])
  show "(h * 4096 + m * 64 + l) div 64 mod 64 = m"
    by (simp only: d digits2(2) [OF assms(1,2)])
  show "(h * 4096 + m * 64 + l) mod 64 = l"
    by (simp only: e digits2(2) [OF assms(3,4)])
qed

lemma digits4:
  assumes "0 \<le> m" "m < 64" "0 \<le> n" "n < 64" "0 \<le> l" "l < 64"
  shows "(h * 262144 + m * 4096 + n * 64 + l) div 262144 = (h::int)"
    "(h * 262144 + m * 4096 + n * 64 + l) div 4096 mod 64 = m"
    "(h * 262144 + m * 4096 + n * 64 + l) div 64 mod 64 = n"
    "(h * 262144 + m * 4096 + n * 64 + l) mod 64 = l"
proof -
  have r: "0 \<le> m * 4096 + n * 64 + l" "m * 4096 + n * 64 + l < 262144" using assms by simp_all
  have "(h * 262144 + (m * 4096 + n * 64 + l)) div 262144 = h"
    using r by (simp add: div_pos_pos_trivial)
  then show "(h * 262144 + m * 4096 + n * 64 + l) div 262144 = h" by (simp add: add.assoc)
  have e: "h * 262144 + m * 4096 + n * 64 + l = (h * 64 + m) * 4096 + n * 64 + l" by simp
  have d: "(h * 262144 + m * 4096 + n * 64 + l) div 4096 = h * 64 + m"
    by (simp only: e digits3(1) [OF assms(3-6)])
  show "(h * 262144 + m * 4096 + n * 64 + l) div 4096 mod 64 = m"
    by (simp only: d digits2(2) [OF assms(1,2)])
  show "(h * 262144 + m * 4096 + n * 64 + l) div 64 mod 64 = n"
    by (simp only: e digits3(2) [OF assms(3-6)])
  show "(h * 262144 + m * 4096 + n * 64 + l) mod 64 = l"
    by (simp only: e digits3(3) [OF assms(3-6)])
qed

lemma enc2:
  assumes "0xC2 \<le> b0" "b0 < 0xE0" "is_cont b1"
  shows "encodable ((b0 - 0xC0) * 0x40 + (b1 - 0x80)) \<and>
         map of_char (utf8_char ((b0 - 0xC0) * 0x40 + (b1 - 0x80))) = [b0, b1]"
proof -
  let ?h = "b0 - 0xC0" and ?l = "b1 - 0x80"
  have r: "2 \<le> ?h" "?h < 32" "0 \<le> ?l" "?l < 64"
    using assms by (simp_all add: is_cont_def)
  have c: "0x80 \<le> ?h * 64 + ?l" "?h * 64 + ?l < 0x800"
    using r by simp_all
  from bytes2 [OF c] digits2 [OF r(3,4), of ?h]
  have "map of_char (utf8_char (?h * 64 + ?l)) = [b0, b1]" by simp
  moreover have "encodable (?h * 64 + ?l)"
    using c by (simp add: encodable_def)
  ultimately show ?thesis by simp
qed



lemma not_surrogate3:
  fixes h m l :: int
  assumes r: "0 \<le> h" "h < 16" "0 \<le> m" "m < 64" "0 \<le> l" "l < 64"
   and h13: "\<not> m < 32 \<longrightarrow> h \<noteq> 13"
  shows "\<not> (0xD800 \<le> h * 4096 + m * 64 + l \<and> h * 4096 + m * 64 + l \<le> 0xDFFF)"
proof
  assume a: "0xD800 \<le> h * 4096 + m * 64 + l \<and> h * 4096 + m * 64 + l \<le> 0xDFFF"
  have "13 \<le> h" using a r by linarith
  moreover have "h \<le> 13" using a r by linarith
  ultimately have h: "h = 13" by simp
  with a r have "32 \<le> m" by linarith
  with h h13 show False by simp
qed
lemma range4_low:
  fixes h m n l :: int
  assumes r: "0 \<le> h" "h < 5" "0 \<le> m" "m < 64" "0 \<le> n" "n < 64" "0 \<le> l" "l < 64"
   and h0: "m < 16 \<longrightarrow> h \<noteq> 0"
  shows "0x10000 \<le> h * 262144 + m * 4096 + n * 64 + l"
proof (cases "h = 0")
  case True
  with h0 have "16 \<le> m" by auto
  with r True show ?thesis by linarith
next
  case False
  with r have "1 \<le> h" by simp
  with r show ?thesis by linarith
qed
lemma range4_high:
  fixes h m n l :: int
  assumes r: "0 \<le> h" "h < 5" "0 \<le> m" "m < 64" "0 \<le> n" "n < 64" "0 \<le> l" "l < 64"
   and h4: "\<not> m < 16 \<longrightarrow> h \<noteq> 4"
  shows "h * 262144 + m * 4096 + n * 64 + l < 0x110000"
proof (cases "h = 4")
  case True
  with h4 have "m < 16" by auto
  with r True show ?thesis by linarith
next
  case False
  with r have "h \<le> 3" by simp
  with r show ?thesis by linarith
qed

lemma range3_low:
  fixes h m l :: int
  assumes r: "0 \<le> h" "h < 16" "0 \<le> m" "m < 64" "0 \<le> l" "l < 64"
   and h0: "m < 32 \<longrightarrow> h \<noteq> 0"
  shows "0x800 \<le> h * 4096 + m * 64 + l"
proof (cases "h = 0")
  case True
  with h0 have "32 \<le> m" by auto
  with r True show ?thesis by linarith
next
  case False
  with r have "1 \<le> h" by simp
  with r show ?thesis by linarith
qed

lemma enc3:
  assumes "0xE0 \<le> b0" "b0 < 0xF0" "second_ok b0 b1" "is_cont b2"
  shows "encodable ((b0 - 0xE0) * 0x1000 + (b1 - 0x80) * 0x40 + (b2 - 0x80)) \<and>
         map of_char (utf8_char ((b0 - 0xE0) * 0x1000 + (b1 - 0x80) * 0x40 + (b2 - 0x80)))
           = [b0, b1, b2]"
proof -
  define h where "h = b0 - 0xE0"
  define m where "m = b1 - 0x80"
  define l where "l = b2 - 0x80"
  define c where "c = h * 4096 + m * 64 + l"
  have b: "b0 = 0xE0 + h" "b1 = 0x80 + m" "b2 = 0x80 + l"
    by (simp_all add: h_def m_def l_def)
  from assms(3) have s: "is_cont b1" "b1 < 0xA0 \<longrightarrow> b0 \<noteq> 0xE0" "\<not> b1 < 0xA0 \<longrightarrow> b0 \<noteq> 0xED"
    by (simp_all add: second_ok_def split: if_splits)
  have r: "0 \<le> h" "h < 16" "0 \<le> m" "m < 64" "0 \<le> l" "l < 64"
    using assms(1,2,4) s(1) by (simp_all add: is_cont_def b)
  have h0: "m < 32 \<longrightarrow> h \<noteq> 0" and h13: "\<not> m < 32 \<longrightarrow> h \<noteq> 13"
    using s(2,3) by (simp_all add: b)
  have c1: "0x800 \<le> c" unfolding c_def by (rule range3_low [OF r h0])
  have c2: "c < 0x10000" unfolding c_def using r by linarith
  have c3: "\<not> (0xD800 \<le> c \<and> c \<le> 0xDFFF)" unfolding c_def by (rule not_surrogate3 [OF r h13])
  have d: "c div 4096 = h" "c div 64 mod 64 = m" "c mod 64 = l"
    unfolding c_def by (rule digits3 [OF r(3-6)])+
  have "map of_char (utf8_char c) = [b0, b1, b2]"
    by (simp only: bytes3 [OF c1 c2] d b)
  moreover have "encodable c"
    using c1 c2 c3 r by (simp add: encodable_def)
  moreover have "(b0 - 0xE0) * 0x1000 + (b1 - 0x80) * 0x40 + (b2 - 0x80) = c"
    by (simp add: c_def h_def m_def l_def)
  ultimately show ?thesis by simp
qed

lemma enc4:
  assumes "0xF0 \<le> b0" "b0 < 0xF5" "second_ok b0 b1" "is_cont b2" "is_cont b3"
  shows "encodable ((b0 - 0xF0) * 0x40000 + (b1 - 0x80) * 0x1000 + (b2 - 0x80) * 0x40 + (b3 - 0x80)) \<and>
         map of_char (utf8_char ((b0 - 0xF0) * 0x40000 + (b1 - 0x80) * 0x1000 +
           (b2 - 0x80) * 0x40 + (b3 - 0x80))) = [b0, b1, b2, b3]"
proof -
  define h where "h = b0 - 0xF0"
  define m where "m = b1 - 0x80"
  define n where "n = b2 - 0x80"
  define l where "l = b3 - 0x80"
  define c where "c = h * 262144 + m * 4096 + n * 64 + l"
  have b: "b0 = 0xF0 + h" "b1 = 0x80 + m" "b2 = 0x80 + n" "b3 = 0x80 + l"
    by (simp_all add: h_def m_def n_def l_def)
  from assms(3) have s: "is_cont b1" "b1 < 0x90 \<longrightarrow> b0 \<noteq> 0xF0" "\<not> b1 < 0x90 \<longrightarrow> b0 \<noteq> 0xF4"
    by (simp_all add: second_ok_def split: if_splits)
  have r: "0 \<le> h" "h < 5" "0 \<le> m" "m < 64" "0 \<le> n" "n < 64" "0 \<le> l" "l < 64"
    using assms(1,2,4,5) s(1) by (simp_all add: is_cont_def b)
  have h0: "m < 16 \<longrightarrow> h \<noteq> 0" and h4: "\<not> m < 16 \<longrightarrow> h \<noteq> 4"
    using s(2,3) by (simp_all add: b)
  have c1: "0x10000 \<le> c" unfolding c_def by (rule range4_low [OF r h0])
  have c2: "c < 0x110000" unfolding c_def by (rule range4_high [OF r h4])
  have d: "c div 262144 = h" "c div 4096 mod 64 = m" "c div 64 mod 64 = n" "c mod 64 = l"
    unfolding c_def by (rule digits4 [OF r(3-8)])+
  have "map of_char (utf8_char c) = [b0, b1, b2, b3]"
    by (simp only: bytes4 [OF c1 c2] d b)
  moreover have "encodable c"
    using c1 c2 by (simp add: encodable_def)
  moreover have "(b0 - 0xF0) * 0x40000 + (b1 - 0x80) * 0x1000 + (b2 - 0x80) * 0x40 + (b3 - 0x80) = c"
    by (simp add: c_def h_def m_def n_def l_def)
  ultimately show ?thesis by simp
qed

lemma utf8_dec_shape:
  assumes "0xFFFD \<notin> set (utf8_dec (b0 # bs))"
  shows "b0 < 0x80 \<and> utf8_dec (b0 # bs) = b0 # utf8_dec bs \<or>
         (\<exists>b1 r. bs = b1 # r \<and> 0xC2 \<le> b0 \<and> b0 < 0xE0 \<and> is_cont b1 \<and>
            utf8_dec (b0 # bs) = ((b0 - 0xC0) * 0x40 + (b1 - 0x80)) # utf8_dec r) \<or>
         (\<exists>b1 b2 r. bs = b1 # b2 # r \<and> 0xE0 \<le> b0 \<and> b0 < 0xF0 \<and> second_ok b0 b1 \<and> is_cont b2 \<and>
            utf8_dec (b0 # bs) =
              ((b0 - 0xE0) * 0x1000 + (b1 - 0x80) * 0x40 + (b2 - 0x80)) # utf8_dec r) \<or>
         (\<exists>b1 b2 b3 r. bs = b1 # b2 # b3 # r \<and> 0xF0 \<le> b0 \<and> b0 < 0xF5 \<and> second_ok b0 b1 \<and>
            is_cont b2 \<and> is_cont b3 \<and>
            utf8_dec (b0 # bs) =
              ((b0 - 0xF0) * 0x40000 + (b1 - 0x80) * 0x1000 + (b2 - 0x80) * 0x40 + (b3 - 0x80))
                # utf8_dec r)"
  using assms
  by (subst (asm) utf8_dec.simps(2), subst utf8_dec.simps(2), subst utf8_dec.simps(2),
      subst utf8_dec.simps(2), subst utf8_dec.simps(2))
     (auto split: if_splits list.splits)

lemma utf8_dec_reencode:
  "\<forall>b\<in>set bs. 0 \<le> b \<Longrightarrow> 0xFFFD \<notin> set (utf8_dec bs) \<Longrightarrow>
   list_all encodable (utf8_dec bs) \<and> map of_char (utf8_bytes (utf8_dec bs)) = bs"
proof (induction bs rule: length_induct)
  case (1 bs)
  show ?case
  proof (cases bs)
    case Nil
    then show ?thesis by (simp add: utf8_bytes_def)
  next
    case (Cons b0 rest)
    have step: "list_all encodable (utf8_dec bs) \<and> map of_char (utf8_bytes (utf8_dec bs)) = bs"
      if d: "utf8_dec bs = c # utf8_dec r" and e: "encodable c"
        and b: "map of_char (utf8_char c) @ r = bs" and l: "length r < length bs" for c r
    proof -
      from b "1.prems"(1) have "\<forall>b\<in>set r. 0 \<le> b" by auto
      moreover from d "1.prems"(2) have "0xFFFD \<notin> set (utf8_dec r)" by simp
      ultimately have "list_all encodable (utf8_dec r) \<and> map of_char (utf8_bytes (utf8_dec r)) = r"
        using "1.IH" l by blast
      with d e b show ?thesis by (simp add: utf8_bytes_Cons)
    qed
    from "1.prems"(2) have "0xFFFD \<notin> set (utf8_dec (b0 # rest))" by (simp add: Cons)
    from utf8_dec_shape [OF this] consider
      (one) "b0 < 0x80" "utf8_dec (b0 # rest) = b0 # utf8_dec rest"
      | (two) b1 r where "rest = b1 # r" "0xC2 \<le> b0" "b0 < 0xE0" "is_cont b1"
          "utf8_dec (b0 # rest) = ((b0 - 0xC0) * 0x40 + (b1 - 0x80)) # utf8_dec r"
      | (three) b1 b2 r where "rest = b1 # b2 # r" "0xE0 \<le> b0" "b0 < 0xF0" "second_ok b0 b1"
          "is_cont b2"
          "utf8_dec (b0 # rest) =
             ((b0 - 0xE0) * 0x1000 + (b1 - 0x80) * 0x40 + (b2 - 0x80)) # utf8_dec r"
      | (four) b1 b2 b3 r where "rest = b1 # b2 # b3 # r" "0xF0 \<le> b0" "b0 < 0xF5"
          "second_ok b0 b1" "is_cont b2" "is_cont b3"
          "utf8_dec (b0 # rest) =
             ((b0 - 0xF0) * 0x40000 + (b1 - 0x80) * 0x1000 + (b2 - 0x80) * 0x40 + (b3 - 0x80))
               # utf8_dec r"
      by blast
    then show ?thesis
    proof cases
      case one
      from "1.prems"(1) Cons have b0: "0 \<le> b0" by simp
      with one(1) have "encodable b0" by (simp add: encodable_def)
      moreover from bytes1 [OF b0 one(1)] have "map of_char (utf8_char b0) @ rest = bs"
        by (simp add: Cons)
      ultimately show ?thesis using one(2) by (intro step [of b0 rest]) (simp_all add: Cons)
    next
      case two
      from enc2 [OF two(2-4)] two(1,5) show ?thesis
        by (intro step [of _ r]) (auto simp: Cons)
    next
      case three
      from enc3 [OF three(2-5)] three(1,6) show ?thesis
        by (intro step [of _ r]) (auto simp: Cons)
    next
      case four
      from enc4 [OF four(2-6)] four(1,7) show ?thesis
        by (intro step [of _ r]) (auto simp: Cons)
    qed
  qed
qed

lemma utf8_invalid_replaced:
  assumes "\<forall>s. utf8_encode s \<noteq> Inr bs"
  shows "0xFFFD \<in> set (utf8_decode_replace bs)"
proof (rule ccontr)
  assume "0xFFFD \<notin> set (utf8_decode_replace bs)"
  then have n: "0xFFFD \<notin> set (utf8_dec (map of_char bs))"
    by (simp add: utf8_decode_replace_def)
  have "(0::int) \<le> of_char b" for b
  proof -
    have "(of_char b :: int) = int (of_char b)" by (simp add: of_nat_of_char)
    then show ?thesis by simp
  qed
  then have "\<forall>b\<in>set (map of_char bs). (0::int) \<le> b" by simp
  from utf8_dec_reencode [OF this n] have
    e: "list_all encodable (utf8_dec (map of_char bs))" and
    m: "map (of_char :: char \<Rightarrow> int) (utf8_bytes (utf8_dec (map of_char bs))) = map of_char bs"
    by simp_all
  from m have "utf8_bytes (utf8_dec (map of_char bs)) = bs"
    by (simp add: inj_map_eq_map inj_of_char)
  with e have "utf8_encode (utf8_dec (map of_char bs)) = Inr bs"
    by (simp add: utf8_encode_def)
  with assms show False by blast
qed


subsection \<open>Decoding ids\<close>

lemma lookup_bytes_Inr:
  "\<forall>i\<in>set ids. dict_get d i \<noteq> None \<Longrightarrow>
   lookup_bytes d ids = Inr (map (\<lambda>i. the (dict_get d i)) ids)"
  by (induction ids) auto

lemma lookup_bytes_Inl:
  "\<exists>i\<in>set ids. dict_get d i = None \<Longrightarrow>
   \<exists>i\<in>set ids. dict_get d i = None \<and> lookup_bytes d ids = Inl (KeyError (IntKey i))"
proof (induction ids)
  case Nil
  then show ?case by simp
next
  case (Cons a ids)
  show ?case
  proof (cases "dict_get d a")
    case None
    then show ?thesis by simp
  next
    case (Some bs)
    with Cons.prems have "\<exists>i\<in>set ids. dict_get d i = None" by auto
    from Cons.IH [OF this] Some show ?thesis by auto
  qed
qed

text \<open>
  Claim C6.  \<open>decode(ids)\<close> fails exactly when some id is not a key of the
  vocabulary, with the \<open>KeyError\<close> of such an id (the specification's
  \<open>UnknownIdError\<close>).  When every id is a key, it returns the lossy UTF-8 decoding of
  the concatenated byte strings: the original text where the bytes are the encoding
  of a text, and a text that holds the replacement character \<open>U+FFFD\<close> where they are
  not valid UTF-8.
\<close>

theorem decode_unknown_id:
  "((\<exists>i\<in>set ids. dict_get (vocab T) i = None) \<longrightarrow>
      (\<exists>i\<in>set ids. dict_get (vocab T) i = None \<and> decode T ids = Inl (KeyError (IntKey i)))) \<and>
   ((\<forall>i\<in>set ids. dict_get (vocab T) i \<noteq> None) \<longrightarrow>
      decode T ids =
        Inr (utf8_decode_replace (concat (map (\<lambda>i. the (dict_get (vocab T) i)) ids)))) \<and>
   (\<forall>s bs. utf8_encode s = Inr bs \<longrightarrow> utf8_decode_replace bs = s) \<and>
   (\<forall>bs. (\<forall>s. utf8_encode s \<noteq> Inr bs) \<longrightarrow> 0xFFFD \<in> set (utf8_decode_replace bs))"
proof -
  have "\<exists>i\<in>set ids. dict_get (vocab T) i = None \<and> decode T ids = Inl (KeyError (IntKey i))"
    if "\<exists>i\<in>set ids. dict_get (vocab T) i = None"
    using lookup_bytes_Inl [OF that] by (auto simp: decode_def)
  moreover have "decode T ids =
      Inr (utf8_decode_replace (concat (map (\<lambda>i. the (dict_get (vocab T) i)) ids)))"
    if "\<forall>i\<in>set ids. dict_get (vocab T) i \<noteq> None"
    using lookup_bytes_Inr [OF that] by (simp add: decode_def)
  ultimately show ?thesis
    using utf8_roundtrip utf8_invalid_replaced by blast
qed


theorem decode_unknown_id_witness:
  "length byte_vocab = 256 \<and>
   bind_err (init byte_vocab [] []) (\<lambda>T. decode T [999999]) = Inl (KeyError (IntKey 999999)) \<and>
   bind_err (init byte_vocab [] []) (\<lambda>T. decode T [104, 105]) = Inr (str ''hi'') \<and>
   bind_err (init byte_vocab [] []) (\<lambda>T. decode T [226, 130, 172]) = Inr [0x20AC] \<and>
   bind_err (init byte_vocab [] []) (\<lambda>T. decode T [104, 255, 105]) = Inr [104, 0xFFFD, 105] \<and>
   utf8_encode [0x20AC] = Inr [char_of (226::int), char_of (130::int), char_of (172::int)] \<and>
   0xFFFD \<in> set (utf8_decode_replace [char_of (255::int)])"
proof -
  let ?T = "finish_init byte_vocab [] [] None"
  have T: "init byte_vocab [] [] = Inr ?T" by (simp add: init_def)
  have v: "vocab ?T = byte_vocab" by (simp add: finish_init_def)
  note d = decode_unknown_id [of _ ?T, unfolded v]
  have "\<exists>i\<in>set [999999]. dict_get byte_vocab i = None"
    by (simp add: byte_vocab_get)
  with d [of "[999999]"]
  have e1: "decode ?T [999999] = Inl (KeyError (IntKey 999999))" by auto
  have r2: "utf8_decode_replace [char_of (104::int), char_of (105::int)] = str ''hi''"
    by code_simp
  from d [of "[104, 105]"] r2 have e2: "decode ?T [104, 105] = Inr (str ''hi'')"
    by (simp add: byte_vocab_get)
  have r3: "utf8_decode_replace [char_of (226::int), char_of (130::int), char_of (172::int)]
      = [0x20AC]" by code_simp
  from d [of "[226, 130, 172]"] r3 have e3: "decode ?T [226, 130, 172] = Inr [0x20AC]"
    by (simp add: byte_vocab_get)
  have r4: "utf8_decode_replace [char_of (104::int), char_of (255::int), char_of (105::int)]
      = [104, 0xFFFD, 105]" by code_simp
  from d [of "[104, 255, 105]"] r4 have e4: "decode ?T [104, 255, 105] = Inr [104, 0xFFFD, 105]"
    by (simp add: byte_vocab_get)
  have u: "utf8_encode [0x20AC] = Inr [char_of (226::int), char_of (130::int), char_of (172::int)]"
    by code_simp
  have f: "utf8_decode_replace [char_of (255::int)] = [0xFFFD]" by code_simp
  have g: "utf8_encode [0xFFFD] \<noteq> Inr [char_of (255::int)]" by code_simp
  have "\<forall>s. utf8_encode s \<noteq> Inr [char_of (255::int)]"
  proof (intro allI notI)
    fix s assume a: "utf8_encode s = Inr [char_of (255::int)]"
    with d [of "[]"] have "utf8_decode_replace [char_of (255::int)] = s" by blast
    with f a g show False by simp
  qed
  with d [of "[]"] have e5: "0xFFFD \<in> set (utf8_decode_replace [char_of (255::int)])" by blast
  from e1 e2 e3 e4 e5 u T show ?thesis by (simp add: bind_err_def byte_vocab_length)
qed


end
